theory Spec2Isabelle
  imports Complex_Main "HOL-Library.Log_Nat" "HOL-Library.Word"
begin

section \<open>Python floats\<close>

text \<open>
  \<^verbatim>\<open>main.py\<close> computes the resized height and the glyph index with Python floats,
  which are IEEE 754 binary64 numbers: every division and multiplication returns the
  representable number nearest to the exact result, a tie going to the even mantissa.
  A finite float is a rational, so a float is modelled as the \<open>rat\<close> it denotes and
  \<open>fl\<close> is the rounding applied after each operation: the exponent \<open>e\<close> of a
  non-zero \<open>q\<close> is the integer with \<open>2 powi e \<le> \<bar>q\<bar> < 2 powi (e + 1)\<close> (not below
  \<open>- 1022\<close>, where the subnormal numbers start), and \<open>q\<close> is rounded to a multiple of
  \<open>2 powi (e - 52)\<close>. Overflow to infinity (a magnitude of \<open>2 ^ 1024\<close>) is not
  modelled: an image dimension is below \<open>2 ^ 63\<close>, so no value of this program comes
  near it.
\<close>

definition round_half_even :: "rat \<Rightarrow> int" where
  "round_half_even q =
     (let n = \<lfloor>q\<rfloor>; d = q - of_int n
      in if d < 1 / 2 then n else if 1 / 2 < d then n + 1 else if even n then n else n + 1)"

definition ilog2 :: "rat \<Rightarrow> int" where
  "ilog2 q = (if 1 \<le> q then bitlen \<lfloor>q\<rfloor> - 1 else - bitlen (\<lceil>1 / q\<rceil> - 1))"

definition fl :: "rat \<Rightarrow> rat" where
  "fl q = (if q = 0 then 0
     else let u = 2 powi (max (ilog2 \<bar>q\<bar>) (- 1022) - 52)
          in sgn q * of_int (round_half_even (\<bar>q\<bar> / u)) * u)"

text \<open>\<^verbatim>\<open>float(n)\<close>, the conversion Python applies to an int operand of a float operation.\<close>

definition py_float :: "int \<Rightarrow> rat" where
  "py_float n = fl (of_int n)"

text \<open>\<^verbatim>\<open>int(x)\<close> on a float truncates towards zero.\<close>

definition py_int :: "rat \<Rightarrow> int" where
  "py_int q = (if 0 \<le> q then \<lfloor>q\<rfloor> else \<lceil>q\<rceil>)"

section \<open>FrameTransform: the resize step\<close>

datatype error = ZeroDivisionError | CvError

text \<open>
  \<^verbatim>\<open>
  def resizeFrame(frame, newWidth=150):
      height, width = frame.shape[:2]
      aspectRatio = height / width
      newHeight = int(newWidth * aspectRatio * 0.55)
      return cv2.resize(frame, (newWidth, newHeight), interpolation=cv2.INTER_NEAREST)
  \<close>
  \<open>height / width\<close> divides two Python ints: the correctly rounded quotient, and
  \<^verbatim>\<open>ZeroDivisionError\<close> for a zero width. \<open>newHeight\<close> is the value of line 15.
\<close>

definition aspectRatio :: "nat \<Rightarrow> nat \<Rightarrow> rat" where
  "aspectRatio height width = fl (of_nat height / of_nat width)"

definition newHeight :: "nat \<Rightarrow> nat \<Rightarrow> int \<Rightarrow> int" where
  "newHeight height width newWidth =
     py_int (fl (fl (py_float newWidth * aspectRatio height width) * fl (55 / 100)))"

text \<open>
  A frame is represented by its shape \<open>(height, width)\<close>, which is all the resize
  claims are about. \<^verbatim>\<open>cv2.resize\<close> raises \<^verbatim>\<open>cv2.error\<close> for an empty source and for
  a target size with a dimension that is not positive; otherwise the result has
  \<open>newHeight\<close> rows and \<open>newWidth\<close> columns.
\<close>

definition resizeFrame :: "nat \<times> nat \<Rightarrow> int \<Rightarrow> error + int \<times> int" where
  "resizeFrame shape newWidth =
     (case shape of (height, width) \<Rightarrow>
        if width = 0 then Inl ZeroDivisionError
        else let h' = newHeight height width newWidth
             in if height = 0 \<or> newWidth \<le> 0 \<or> h' \<le> 0 then Inl CvError
                else Inr (h', newWidth))"

text \<open>The height the specification asks for: the exact product, rounded (to the nearest
  integer; the inputs it is evaluated at below are not ties).\<close>

definition spec_newHeight :: "nat \<Rightarrow> nat \<Rightarrow> int \<Rightarrow> int" where
  "spec_newHeight height width newWidth =
     round (of_int newWidth * (of_nat height / of_nat width) * (55 / 100) :: rat)"

section \<open>GlyphMapper\<close>

type_synonym u8 = "8 word"

definition ASCII_CHARS :: string where
  "ASCII_CHARS = ''@%#*+=-:. ''"

text \<open>
  \<^verbatim>\<open>
  idx = int((brightness - 10) / (255 - 10) * (len(ASCII_CHARS) - 1))
  idx = max(0, min(len(ASCII_CHARS) - 1, idx))
  \<close>
  \<open>brightness\<close> is an 8-bit pixel of the grey image; the lines are reached only with
  \<open>10 \<le> brightness\<close>, where the subtraction does not wrap. The quotient and the
  product are binary64 operations.
\<close>

definition glyphIndex :: "u8 \<Rightarrow> int" where
  "glyphIndex brightness =
     (let idx = py_int (fl (fl (of_int (uint brightness - 10) / of_int (255 - 10))
                            * py_float (int (length ASCII_CHARS) - 1)))
      in max 0 (min (int (length ASCII_CHARS) - 1) idx))"

text \<open>The index the specification asks for: the exact value, rounded, then clamped (the value
  is never a tie: \<open>18 * (b - 10)\<close> is even and an odd multiple of 245 is odd).\<close>

definition spec_glyphIndex :: "u8 \<Rightarrow> int" where
  "spec_glyphIndex brightness =
     max 0 (min (int (length ASCII_CHARS) - 1)
       (round (of_int (uint brightness - 10) / of_int (255 - 10)
               * of_int (int (length ASCII_CHARS) - 1) :: rat)))"

text \<open>
  \<^verbatim>\<open>
  def compressColor(r, g, b):
      r = (r // 64) * 64
      g = (g // 64) * 64
      b = (b // 64) * 64
      return f'#{r:02x}{g:02x}{b:02x}'
  \<close>
  \<open>quantize\<close> is lines 39 to 41, on the 8-bit channels the caller passes;
  \<open>fmt02x\<close> is the format \<^verbatim>\<open>02x\<close>: lower-case hexadecimal, padded with zeros to two
  characters.
\<close>

definition hexdigit :: "nat \<Rightarrow> char" where
  "hexdigit d = ''0123456789abcdef'' ! d"

fun hex :: "nat \<Rightarrow> string" where
  "hex n = (if n < 16 then [hexdigit n] else hex (n div 16) @ [hexdigit (n mod 16)])"

declare hex.simps [simp del]

definition fmt02x :: "nat \<Rightarrow> string" where
  "fmt02x n = (let s = hex n in replicate (2 - length s) CHR ''0'' @ s)"

definition quantize :: "u8 \<times> u8 \<times> u8 \<Rightarrow> u8 \<times> u8 \<times> u8" where
  "quantize c = (case c of (r, g, b) \<Rightarrow> ((r div 64) * 64, (g div 64) * 64, (b div 64) * 64))"

definition compressColor :: "u8 \<Rightarrow> u8 \<Rightarrow> u8 \<Rightarrow> string" where
  "compressColor r g b =
     (case quantize (r, g, b) of (r', g', b') \<Rightarrow>
        ''#'' @ fmt02x (unat r') @ fmt02x (unat g') @ fmt02x (unat b'))"

section \<open>DiffRenderer\<close>

text \<open>
  A cell position is the pair \<open>(x, y)\<close> that keys \<open>lastFrame\<close> and \<open>charMap\<close>. The
  processed frame is the colour image \<open>processed\<close> (a pixel is \<open>(b, g, r)\<close>) with its
  grey image \<open>gray\<close>, both indexed \<open>[y, x]\<close>, of \<open>rows\<close> by \<open>cols\<close> cells.
\<close>

type_synonym pos = "nat \<times> nat"

text \<open>The raw camera frame \<^verbatim>\<open>fetcher.getFrame()\<close> hands over: \<open>raw_height\<close> by
  \<open>raw_width\<close> pixels \<open>(b, g, r)\<close>.\<close>

record raw_frame =
  raw_height :: nat
  raw_width :: nat
  raw_pixels :: "nat \<Rightarrow> nat \<Rightarrow> u8 \<times> u8 \<times> u8"

record frame =
  rows :: nat
  cols :: nat
  gray :: "nat \<Rightarrow> nat \<Rightarrow> u8"
  processed :: "nat \<Rightarrow> nat \<Rightarrow> u8 \<times> u8 \<times> u8"

text \<open>
  The Tk side: a canvas text item, and the calls the renderer makes. Each canvas call
  carries the cell being visited when it was made; \<open>After\<close> is \<^verbatim>\<open>root.after\<close>.
\<close>

record text_item =
  item_x :: int
  item_y :: int
  item_text :: char
  item_fill :: string

datatype tk_call =
    CreateText pos int int char string
  | ItemConfig pos nat char string
  | After nat

text \<open>
  The state \<^verbatim>\<open>renderAscii\<close> closes over: the two dictionaries, the items of the
  canvas with the next free item id, and the trace of calls made so far.
\<close>

record render_state =
  lastFrame :: "pos \<rightharpoonup> char \<times> string"
  charMap :: "pos \<rightharpoonup> nat"
  items :: "nat \<rightharpoonup> text_item"
  next_id :: nat
  calls :: "tk_call list"

definition init_state :: render_state where
  "init_state = \<lparr>lastFrame = Map.empty, charMap = Map.empty, items = Map.empty,
                  next_id = 1, calls = []\<rparr>"

definition cellWidth :: int where "cellWidth = 5"
definition cellHeight :: int where "cellHeight = 9"

text \<open>\<^verbatim>\<open>canvas.create_text\<close>: a new item under the next id, which is returned.\<close>

definition create_text :: "pos \<Rightarrow> int \<Rightarrow> int \<Rightarrow> char \<Rightarrow> string \<Rightarrow> render_state \<Rightarrow> nat \<times> render_state" where
  "create_text p px py t c s =
     (next_id s,
      s\<lparr>items := (items s)(next_id s \<mapsto> \<lparr>item_x = px, item_y = py, item_text = t, item_fill = c\<rparr>),
        next_id := Suc (next_id s),
        calls := calls s @ [CreateText p px py t c]\<rparr>)"

text \<open>\<^verbatim>\<open>canvas.itemconfig\<close>: the text and fill of an item change; an id that names no
  item changes nothing.\<close>

definition itemconfig :: "pos \<Rightarrow> nat \<Rightarrow> char \<Rightarrow> string \<Rightarrow> render_state \<Rightarrow> render_state" where
  "itemconfig p h t c s =
     s\<lparr>items := (case items s h of None \<Rightarrow> items s
                  | Some it \<Rightarrow> (items s)(h \<mapsto> it\<lparr>item_text := t, item_fill := c\<rparr>)),
       calls := calls s @ [ItemConfig p h t c]\<rparr>"

text \<open>The glyph and colour of a cell, lines 98 to 102.\<close>

definition cellGlyph :: "frame \<Rightarrow> nat \<Rightarrow> nat \<Rightarrow> char \<times> string" where
  "cellGlyph f y x =
     (case processed f y x of (b, g, r) \<Rightarrow>
        let color = compressColor r g b;
            idx = glyphIndex (gray f y x)
        in (ASCII_CHARS ! nat idx, color))"

text \<open>The body of the inner loop, lines 94 to 120.\<close>

definition visitCell :: "frame \<Rightarrow> int \<Rightarrow> int \<Rightarrow> nat \<Rightarrow> nat \<Rightarrow> render_state \<Rightarrow> render_state" where
  "visitCell f marginX marginY y x s =
     (if gray f y x < 10 then s
      else let cc = cellGlyph f y x; p = (x, y)
           in if lastFrame s p = Some cc then s
              else let s1 = s\<lparr>lastFrame := (lastFrame s)(p \<mapsto> cc)\<rparr>
                   in case charMap s1 p of
                        Some h \<Rightarrow> itemconfig p h (fst cc) (snd cc) s1
                      | None \<Rightarrow>
                          (case create_text p (marginX + int x * cellWidth)
                                  (marginY + int y * cellHeight) (fst cc) (snd cc) s1
                           of (h, s2) \<Rightarrow> s2\<lparr>charMap := (charMap s2)(p \<mapsto> h)\<rparr>))"

text \<open>Lines 89 and 90, for a canvas of the given width or height.\<close>

definition margin :: "int \<Rightarrow> nat \<Rightarrow> int \<Rightarrow> int" where
  "margin avail n cell = max 0 ((avail - int n * cell) div 2)"

text \<open>Lines 87 to 120: the margins and the two nested loops.\<close>

definition renderCells :: "frame \<Rightarrow> int \<Rightarrow> int \<Rightarrow> render_state \<Rightarrow> render_state" where
  "renderCells f winfo_width winfo_height s =
     (let marginX = margin winfo_width (cols f) cellWidth;
          marginY = margin winfo_height (rows f) cellHeight
      in fold (\<lambda>y. fold (\<lambda>x. visitCell f marginX marginY y x) [0..<cols f]) [0..<rows f] s)"

text \<open>
  One activation of \<^verbatim>\<open>updateCanvas\<close>. \<open>fetched\<close> is what \<^verbatim>\<open>fetcher.getFrame()\<close>
  returns. Lines 83 to 86 are calls into the image library: \<open>pipeline\<close> stands for
  them, giving the processed frame or the exception one of them raised. An exception
  leaves \<^verbatim>\<open>updateCanvas\<close> before anything is drawn or rescheduled.
\<close>

definition updateCanvas ::
  "(raw_frame \<Rightarrow> error + frame) \<Rightarrow> raw_frame option \<Rightarrow> int \<Rightarrow> int \<Rightarrow> render_state \<Rightarrow> error + render_state" where
  "updateCanvas pipeline fetched winfo_width winfo_height s =
     (case fetched of
        None \<Rightarrow> Inr (s\<lparr>calls := calls s @ [After 1]\<rparr>)
      | Some raw \<Rightarrow>
          (case pipeline raw of
             Inl e \<Rightarrow> Inl e
           | Inr f \<Rightarrow>
               let s' = renderCells f winfo_width winfo_height s
               in Inr (s'\<lparr>calls := calls s' @ [After 1]\<rparr>)))"

text \<open>
  The sparse glyph mapping of a frame: the glyph and colour of every cell that is not
  below the brightness threshold.
\<close>

definition glyphMapping :: "frame \<Rightarrow> pos \<rightharpoonup> char \<times> string" where
  "glyphMapping f p =
     (case p of (x, y) \<Rightarrow>
        if x < cols f \<and> y < rows f \<and> \<not> gray f y x < 10 then Some (cellGlyph f y x) else None)"

text \<open>The calls of a trace that were made for a cell.\<close>

fun call_pos :: "tk_call \<Rightarrow> pos option" where
  "call_pos (CreateText p px py t c) = Some p"
| "call_pos (ItemConfig p h t c) = Some p"
| "call_pos (After ms) = None"

fun is_create :: "tk_call \<Rightarrow> bool" where
  "is_create (CreateText p px py t c) = True"
| "is_create (ItemConfig p h t c) = False"
| "is_create (After ms) = False"

definition calls_at :: "pos \<Rightarrow> tk_call list \<Rightarrow> tk_call list" where
  "calls_at p cs = filter (\<lambda>c. call_pos c = Some p) cs"

definition new_calls :: "render_state \<Rightarrow> render_state \<Rightarrow> tk_call list" where
  "new_calls s s' = drop (length (calls s)) (calls s')"

text \<open>The states the renderer can be in: the initial one, and any reached by a tick.\<close>

inductive reachable :: "render_state \<Rightarrow> bool" where
  reachable_init: "reachable init_state"
| reachable_tick: "reachable s \<Longrightarrow> updateCanvas pipeline fetched w h s = Inr s' \<Longrightarrow> reachable s'"

text \<open>A margin \<open>m\<close> centres an extent in the available length when the gap before it
  and the gap after it differ by at most the one pixel of integer halving.\<close>

definition centres :: "int \<Rightarrow> int \<Rightarrow> int \<Rightarrow> bool" where
  "centres avail extent m = (\<bar>(avail - extent - m) - m\<bar> \<le> 1)"

section \<open>The render pass, cell by cell\<close>

text \<open>The cells in the order the two loops visit them, and the loops as one pass over them.\<close>

definition cell_order :: "frame \<Rightarrow> pos list" where
  "cell_order f = concat (map (\<lambda>y. map (\<lambda>x. (x, y)) [0..<cols f]) [0..<rows f])"

definition visitCells :: "frame \<Rightarrow> int \<Rightarrow> int \<Rightarrow> pos list \<Rightarrow> render_state \<Rightarrow> render_state" where
  "visitCells f marginX marginY ps s = fold (\<lambda>p. visitCell f marginX marginY (snd p) (fst p)) ps s"

text \<open>The glyph and colour a canvas call draws, and the creations among the calls of a cell.\<close>

fun call_glyph :: "tk_call \<Rightarrow> (char \<times> string) option" where
  "call_glyph (CreateText p px py t c) = Some (t, c)"
| "call_glyph (ItemConfig p h t c) = Some (t, c)"
| "call_glyph (After ms) = None"

definition creates_at :: "pos \<Rightarrow> tk_call list \<Rightarrow> tk_call list" where
  "creates_at p cs = filter is_create (calls_at p cs)"

text \<open>What a canvas call of a tick looks like: made for a cell of the frame that is not below
  the threshold, drawing that cell's glyph and colour, a creation placed at the margin plus the
  cell offset.\<close>

definition tick_call :: "frame \<Rightarrow> int \<Rightarrow> int \<Rightarrow> tk_call \<Rightarrow> bool" where
  "tick_call f marginX marginY c =
     (case c of
        CreateText p px py t col \<Rightarrow>
          \<not> gray f (snd p) (fst p) < 10 \<and> (t, col) = cellGlyph f (snd p) (fst p)
          \<and> px = marginX + int (fst p) * cellWidth \<and> py = marginY + int (snd p) * cellHeight
      | ItemConfig p h t col \<Rightarrow>
          \<not> gray f (snd p) (fst p) < 10 \<and> (t, col) = cellGlyph f (snd p) (fst p)
      | After ms \<Rightarrow> False)"

text \<open>The invariant of the two dictionaries and the canvas.\<close>

definition consistent :: "render_state \<Rightarrow> bool" where
  "consistent s =
     (dom (lastFrame s) = dom (charMap s)
      \<and> (\<forall>p q h. charMap s p = Some h \<and> charMap s q = Some h \<longrightarrow> p = q)
      \<and> (\<forall>p h. charMap s p = Some h \<longrightarrow> h < next_id s \<and> items s h \<noteq> None)
      \<and> (\<forall>p. length (creates_at p (calls s)) = (if charMap s p = None then 0 else 1)))"

section \<open>A one-cell scenario\<close>

text \<open>
  The one-cell scenario of section 8 of the specification: a processed frame of a single cell
  with the given grey value and pixel, a raw camera frame, and the state after the first tick
  on a 900 by 600 canvas has drawn a cell of brightness 50.
\<close>

definition cell_frame :: "u8 \<Rightarrow> u8 \<times> u8 \<times> u8 \<Rightarrow> frame" where
  "cell_frame v px = \<lparr>rows = 1, cols = 1, gray = (\<lambda>y x. v), processed = (\<lambda>y x. px)\<rparr>"

definition camera_frame :: raw_frame where
  "camera_frame = \<lparr>raw_height = 480, raw_width = 640, raw_pixels = (\<lambda>y x. (0, 0, 0))\<rparr>"

definition drawn_state :: render_state where
  "drawn_state =
     \<lparr>lastFrame = [(0, 0) \<mapsto> (CHR ''%'', ''#c08000'')],
      charMap = [(0, 0) \<mapsto> 1],
      items = [1 \<mapsto> \<lparr>item_x = 447, item_y = 295, item_text = CHR ''%'', item_fill = ''#c08000''\<rparr>],
      next_id = 2,
      calls = [CreateText (0, 0) 447 295 CHR ''%'' ''#c08000'', After 1]\<rparr>"

section \<open>Binary64 rounding: bounds\<close>

lemma round_half_even_err: "\<bar>of_int (round_half_even q) - q\<bar> \<le> 1 / 2"
  unfolding round_half_even_def Let_def by (auto simp: abs_if) linarith+

lemma ilog2_ge1:
  assumes "1 \<le> q"
  shows "2 powi (ilog2 q) \<le> q" and "q < 2 powi (ilog2 q + 1)"
proof -
  let ?n = "\<lfloor>q\<rfloor>"
  have n: "0 < ?n" using assms by simp
  have b1: "1 \<le> bitlen ?n" using n by (simp add: bitlen_alt_def)
  from bitlen_bounds[OF n] have lo: "2 ^ nat (bitlen ?n - 1) \<le> ?n" and hi: "?n < 2 ^ nat (bitlen ?n)"
    by auto
  have e: "ilog2 q = bitlen ?n - 1" using assms by (simp add: ilog2_def)
  have "(2::rat) powi (bitlen ?n - 1) = 2 ^ nat (bitlen ?n - 1)"
    using b1 by (simp add: power_int_def)
  also have "\<dots> = of_int (2 ^ nat (bitlen ?n - 1))" by simp
  also have "\<dots> \<le> of_int ?n" using lo by (simp only: of_int_le_iff)
  also have "\<dots> \<le> q" by simp
  finally show "2 powi (ilog2 q) \<le> q" by (simp add: e)
  have "?n + 1 \<le> 2 ^ nat (bitlen ?n)" using hi by simp
  then have "(of_int (?n + 1) :: rat) \<le> of_int (2 ^ nat (bitlen ?n))" by (simp only: of_int_le_iff)
  moreover have "q < of_int (?n + 1)" by linarith
  ultimately have "q < 2 ^ nat (bitlen ?n)" by simp
  also have "\<dots> = (2::rat) powi (bitlen ?n)" using b1 by (simp add: power_int_def)
  finally show "q < 2 powi (ilog2 q + 1)" by (simp add: e)
qed

lemma ilog2_lt1:
  assumes "0 < q" "q < 1"
  shows "2 powi (ilog2 q) \<le> q" and "q < 2 powi (ilog2 q + 1)"
proof -
  let ?m = "\<lceil>1 / q\<rceil> - 1"
  have y: "1 < 1 / q" using assms by simp
  then have m: "0 < ?m" by linarith
  have b1: "1 \<le> bitlen ?m" using m by (simp add: bitlen_alt_def)
  from bitlen_bounds[OF m] have lo: "2 ^ nat (bitlen ?m - 1) \<le> ?m" and hi: "?m < 2 ^ nat (bitlen ?m)"
    by auto
  have e: "ilog2 q = - bitlen ?m" using assms by (simp add: ilog2_def)
  have "?m + 1 \<le> 2 ^ nat (bitlen ?m)" using hi by simp
  then have "(of_int (?m + 1) :: rat) \<le> of_int (2 ^ nat (bitlen ?m))" by (simp only: of_int_le_iff)
  moreover have "1 / q \<le> of_int (?m + 1)" by simp
  ultimately have "1 / q \<le> of_int (2 ^ nat (bitlen ?m))" by linarith
  then have "1 / q \<le> 2 ^ nat (bitlen ?m)" by simp
  then have "1 \<le> 2 ^ nat (bitlen ?m) * q" using assms(1) by (simp add: field_simps)
  then have "1 / 2 ^ nat (bitlen ?m) \<le> q" by (simp add: field_simps)
  moreover have "(2::rat) powi (- bitlen ?m) = 1 / 2 ^ nat (bitlen ?m)"
    using b1 by (simp add: power_int_def field_simps)
  ultimately show "2 powi (ilog2 q) \<le> q" by (simp add: e)
  have "(of_int (2 ^ nat (bitlen ?m - 1)) :: rat) \<le> of_int ?m" using lo by (simp only: of_int_le_iff)
  moreover have "of_int ?m < 1 / q" by linarith
  ultimately have "of_int (2 ^ nat (bitlen ?m - 1)) < 1 / q" by linarith
  then have "2 ^ nat (bitlen ?m - 1) < 1 / q" by simp
  then have "2 ^ nat (bitlen ?m - 1) * q < 1" using assms(1) by (simp add: field_simps)
  then have "q < 1 / 2 ^ nat (bitlen ?m - 1)" by (simp add: field_simps)
  moreover have "(2::rat) powi (- bitlen ?m + 1) = 1 / 2 ^ nat (bitlen ?m - 1)"
  proof -
    have "- bitlen ?m + 1 = - (bitlen ?m - 1)" by simp
    then show ?thesis using b1 by (simp only: power_int_minus) (simp add: power_int_def field_simps)
  qed
  ultimately show "q < 2 powi (ilog2 q + 1)" by (simp add: e)
qed

lemma ilog2_bounds:
  assumes "0 < q"
  shows "2 powi (ilog2 q) \<le> q \<and> q < 2 powi (ilog2 q + 1)"
  using ilog2_ge1[of q] ilog2_lt1[of q] assms by (cases "1 \<le> q") auto

lemma fl_rel_error:
  assumes "2 powi (- 1022) \<le> q"
  shows "\<bar>fl q - q\<bar> \<le> q / 2 ^ 53"
proof -
  have "(0::rat) < 2 powi (- 1022)" by simp
  then have q: "0 < q" using assms by (rule less_le_trans)
  define e where "e = ilog2 q"
  define u :: rat where "u = 2 powi (e - 52)"
  have u: "0 < u" by (simp add: u_def)
  have lo: "2 powi e \<le> q" using ilog2_bounds[OF q] by (simp add: e_def)
  have "- 1022 \<le> e"
  proof (rule ccontr)
    assume "\<not> - 1022 \<le> e"
    then have "e + 1 \<le> - 1022" by simp
    then have "(2::rat) powi (e + 1) \<le> 2 powi (- 1022)" by (intro power_int_increasing) auto
    with ilog2_bounds[OF q] assms show False by (simp add: e_def)
  qed
  then have m: "max (ilog2 \<bar>q\<bar>) (- 1022) = e" using q by (simp add: e_def)
  have f: "fl q = of_int (round_half_even (q / u)) * u"
    using q m by (simp add: fl_def u_def Let_def)
  have "\<bar>of_int (round_half_even (q / u)) - q / u\<bar> \<le> 1 / 2" by (rule round_half_even_err)
  then have "\<bar>of_int (round_half_even (q / u)) - q / u\<bar> * u \<le> 1 / 2 * u"
    using u by (intro mult_right_mono) auto
  moreover have "\<bar>of_int (round_half_even (q / u)) - q / u\<bar> * u = \<bar>fl q - q\<bar>"
  proof -
    have "\<bar>of_int (round_half_even (q / u)) - q / u\<bar> * u = \<bar>(of_int (round_half_even (q / u)) - q / u) * u\<bar>"
      using u by (simp add: abs_mult)
    also have "(of_int (round_half_even (q / u)) - q / u) * u = fl q - q"
      using u by (simp add: f field_simps)
    finally show ?thesis .
  qed
  ultimately have "\<bar>fl q - q\<bar> \<le> u / 2" by simp
  also have "u / 2 = 2 powi e / 2 ^ 53"
  proof -
    have "(2::rat) powi (e - 52) = 2 powi e / 2 powi 52" by (simp add: power_int_diff)
    then show ?thesis by (simp add: u_def)
  qed
  also have "\<dots> \<le> q / 2 ^ 53" using lo by (simp add: divide_right_mono)
  finally show ?thesis .
qed

text \<open>The same bound as an interval, for a value known to be at least \<open>2 powi (- 1022)\<close>.\<close>

lemma fl_interval:
  assumes "2 powi (- 1022) \<le> q"
  shows "q * (1 - 1 / 2 ^ 53) \<le> fl q" and "fl q \<le> q * (1 + 1 / 2 ^ 53)"
proof -
  define d where "d = q / 2 ^ 53"
  have "\<bar>fl q - q\<bar> \<le> d" using fl_rel_error[OF assms] by (simp add: d_def)
  then have b: "fl q - q \<le> d" "- (fl q - q) \<le> d" by (simp_all only: abs_le_iff)
  have e1: "q * (1 - 1 / 2 ^ 53) = q - d" by (simp add: d_def algebra_simps)
  have e2: "q * (1 + 1 / 2 ^ 53) = q + d" by (simp add: d_def algebra_simps)
  show "q * (1 - 1 / 2 ^ 53) \<le> fl q" unfolding e1 using b by linarith
  show "fl q \<le> q * (1 + 1 / 2 ^ 53)" unfolding e2 using b by linarith
qed

lemma tiny_le: "1 / 2 ^ 40 \<le> q \<Longrightarrow> (2::rat) powi (- 1022) \<le> q"
proof -
  assume a: "1 / 2 ^ 40 \<le> q"
  have "(2::rat) powi (- 1022) \<le> 2 powi (- 40)" by (intro power_int_increasing) auto
  also have "\<dots> = 1 / 2 ^ 40" by (simp add: power_int_minus field_simps)
  finally show ?thesis using a by simp
qed

lemma floor_numeral_div: "\<lfloor>numeral a / numeral b :: rat\<rfloor> = numeral a div numeral b"
  using floor_divide_of_int_eq[of "numeral a" "numeral b", where ?'a = rat] by simp

lemma ceiling_numeral_div: "\<lceil>numeral a / numeral b :: rat\<rceil> = - ((- numeral a) div numeral b)"
  using ceiling_divide_eq_div[of "numeral a" "numeral b", where ?'a = rat] by simp

lemmas fl_eval = fl_def py_float_def py_int_def ilog2_def compute_bitlen round_half_even_def Let_def
  power_int_minus floor_numeral_div ceiling_numeral_div

lemma fl_150: "py_float 150 = 150" by (simp add: fl_eval)
lemma fl_9: "py_float 9 = 9" by (simp add: fl_eval)
lemma fl_1: "fl 1 = 1" by (simp add: fl_eval)
lemma fl_055: "fl (11 / 20) = 2476979795053773 / 4503599627370496" by (simp add: fl_eval)

text \<open>A value within \<open>1 / D\<close> of the fraction \<open>N / D\<close> has its floor within one below it.\<close>

lemma floor_near_fraction:
  fixes t :: rat
  assumes D: "0 < D" and near: "\<bar>t - of_int N / of_int D\<bar> < 1 / of_int D"
  shows "of_int \<lfloor>t\<rfloor> \<le> (of_int N / of_int D :: rat)" and "(of_int N / of_int D :: rat) \<le> of_int \<lfloor>t\<rfloor> + 1"
proof -
  let ?m = "\<lfloor>t\<rfloor>"
  have D': "(0::rat) < of_int D" using D by simp
  have "t < of_int N / of_int D + 1 / of_int D" using near by (simp add: abs_less_iff)
  moreover have "of_int N / of_int D + 1 / of_int D = (of_int N + 1 :: rat) / of_int D"
    by (simp add: add_divide_distrib)
  moreover have "of_int ?m \<le> t" by simp
  ultimately have "of_int ?m < (of_int N + 1 :: rat) / of_int D" by linarith
  then have "of_int ?m * of_int D < (of_int N + 1 :: rat)" using D' by (simp add: field_simps)
  then have "(of_int (?m * D) :: rat) < of_int (N + 1)" by simp
  then have "?m * D < N + 1" by (simp only: of_int_less_iff)
  then have "?m * D \<le> N" by simp
  then have "(of_int (?m * D) :: rat) \<le> of_int N" by (simp only: of_int_le_iff)
  then show "of_int ?m \<le> (of_int N / of_int D :: rat)" using D' by (simp add: field_simps)
  have "of_int N / of_int D - 1 / of_int D < t" using near by (simp add: abs_less_iff)
  moreover have "t < of_int ?m + 1" by linarith
  moreover have "of_int N / of_int D - 1 / of_int D = (of_int N - 1 :: rat) / of_int D"
    by (simp add: diff_divide_distrib)
  ultimately have "(of_int N - 1) / of_int D < (of_int ?m + 1 :: rat)" by linarith
  then have "(of_int N - 1 :: rat) < (of_int ?m + 1) * of_int D" using D' by (simp add: field_simps)
  then have "(of_int (N - 1) :: rat) < of_int ((?m + 1) * D)" by simp
  then have "N - 1 < (?m + 1) * D" by (simp only: of_int_less_iff)
  then have "N \<le> (?m + 1) * D" by simp
  then have "(of_int N :: rat) \<le> of_int ((?m + 1) * D)" by (simp only: of_int_le_iff)
  then show "(of_int N / of_int D :: rat) \<le> of_int ?m + 1" using D' by (simp add: field_simps)
qed

text \<open>Bounds of the form \<open>r * cl \<le> v \<le> r * ch\<close> carried through one operation.\<close>

lemma scaled_fl:
  assumes r: "1 / 2 ^ 32 \<le> r" and cl: "1 / 2 ^ 8 \<le> cl"
    and lo: "r * cl \<le> v" and hi: "v \<le> r * ch"
  shows "r * (cl * (1 - 1 / 2 ^ 53)) \<le> fl v" and "fl v \<le> r * (ch * (1 + 1 / 2 ^ 53))"
proof -
  have r0: "0 \<le> r" using r by (rule order_trans[rotated]) simp
  have "(1 / 2 ^ 32) * (1 / 2 ^ 8) \<le> r * cl"
    using r cl by (intro mult_mono) auto
  then have "1 / 2 ^ 40 \<le> r * cl" by simp
  then have "1 / 2 ^ 40 \<le> v" using lo by linarith
  then have big: "2 powi (- 1022) \<le> v" by (rule tiny_le)
  have "r * cl * (1 - 1 / 2 ^ 53) \<le> v * (1 - 1 / 2 ^ 53)"
    using lo by (intro mult_right_mono) auto
  also have "\<dots> \<le> fl v" by (rule fl_interval(1)[OF big])
  finally show "r * (cl * (1 - 1 / 2 ^ 53)) \<le> fl v" by (simp only: mult.assoc)
  have "fl v \<le> v * (1 + 1 / 2 ^ 53)" by (rule fl_interval(2)[OF big])
  also have "\<dots> \<le> r * ch * (1 + 1 / 2 ^ 53)"
    using hi by (intro mult_right_mono) auto
  finally show "fl v \<le> r * (ch * (1 + 1 / 2 ^ 53))" by (simp only: mult.assoc)
qed

lemma scaled_mult:
  fixes r :: rat
  assumes k: "0 \<le> k" and lo: "r * cl \<le> v" and hi: "v \<le> r * ch"
  shows "r * (cl * k) \<le> v * k" and "v * k \<le> r * (ch * k)"
proof -
  have "r * cl * k \<le> v * k" using lo k by (rule mult_right_mono)
  then show "r * (cl * k) \<le> v * k" by (simp only: mult.assoc)
  have "v * k \<le> r * ch * k" using hi k by (rule mult_right_mono)
  then show "v * k \<le> r * (ch * k)" by (simp only: mult.assoc)
qed

text \<open>The float product of line 15 against the exact one, \<open>165 * height / (2 * width)\<close>.\<close>

lemma height_product_near:
  assumes h: "0 < h" "h < 2 ^ 32" and w: "0 < w" "w < 2 ^ 32"
  defines "t \<equiv> fl (fl (py_float 150 * aspectRatio h w) * fl (55 / 100))"
  shows "0 < t" and "\<bar>t - of_int (165 * int h) / of_int (2 * int w)\<bar> < 1 / of_int (2 * int w)"
proof -
  define r :: rat where "r = of_nat h / of_nat w"
  have w': "(0::rat) < of_nat w" and h': "(0::rat) < of_nat h" using h w by simp_all
  have "(of_nat w :: rat) < of_nat (2 ^ 32)" using w by (simp only: of_nat_less_iff)
  then have wb: "(of_nat w :: rat) \<le> 2 ^ 32" by simp
  have "(of_nat 1 :: rat) \<le> of_nat h" using h by (simp only: of_nat_le_iff)
  then have hb: "(1 :: rat) \<le> of_nat h" by simp
  have "(1::rat) / 2 ^ 32 \<le> 1 / of_nat w" using w' wb by (simp add: frac_le)
  also have "\<dots> \<le> of_nat h / of_nat w" using hb w' by (simp add: divide_right_mono)
  finally have r: "1 / 2 ^ 32 \<le> r" by (simp add: r_def)
  have r0: "0 < r" using h' w' by (simp add: r_def)
  define a where "a = aspectRatio h w"
  have a_eq: "a = fl r" by (simp add: a_def aspectRatio_def r_def)
  have a_lo: "r * (1 * (1 - 1 / 2 ^ 53)) \<le> a"
    unfolding a_eq by (rule scaled_fl(1)[where cl = 1 and ch = 1, OF r]) simp_all
  have a_hi: "a \<le> r * (1 * (1 + 1 / 2 ^ 53))"
    unfolding a_eq by (rule scaled_fl(2)[where cl = 1 and ch = 1, OF r]) simp_all
  have p_lo: "r * (1 * (1 - 1 / 2 ^ 53) * 150) \<le> a * 150"
    by (rule scaled_mult(1)[OF _ a_lo a_hi]) simp
  have p_hi: "a * 150 \<le> r * (1 * (1 + 1 / 2 ^ 53) * 150)"
    by (rule scaled_mult(2)[OF _ a_lo a_hi]) simp
  define t1 where "t1 = fl (a * 150)"
  have t1_lo: "r * (1 * (1 - 1 / 2 ^ 53) * 150 * (1 - 1 / 2 ^ 53)) \<le> t1"
    unfolding t1_def by (rule scaled_fl(1)[OF r _ p_lo p_hi]) simp
  have t1_hi: "t1 \<le> r * (1 * (1 + 1 / 2 ^ 53) * 150 * (1 + 1 / 2 ^ 53))"
    unfolding t1_def by (rule scaled_fl(2)[OF r _ p_lo p_hi]) simp
  define C :: rat where "C = 2476979795053773 / 4503599627370496"
  have C0: "0 \<le> C" by (simp add: C_def)
  have p2_lo: "r * (1 * (1 - 1 / 2 ^ 53) * 150 * (1 - 1 / 2 ^ 53) * C) \<le> t1 * C"
    by (rule scaled_mult(1)[OF C0 t1_lo t1_hi])
  have p2_hi: "t1 * C \<le> r * (1 * (1 + 1 / 2 ^ 53) * 150 * (1 + 1 / 2 ^ 53) * C)"
    by (rule scaled_mult(2)[OF C0 t1_lo t1_hi])
  have t2_lo: "r * (1 * (1 - 1 / 2 ^ 53) * 150 * (1 - 1 / 2 ^ 53) * C * (1 - 1 / 2 ^ 53)) \<le> fl (t1 * C)"
    by (rule scaled_fl(1)[OF r _ p2_lo p2_hi]) (simp add: C_def)
  have t2_hi: "fl (t1 * C) \<le> r * (1 * (1 + 1 / 2 ^ 53) * 150 * (1 + 1 / 2 ^ 53) * C * (1 + 1 / 2 ^ 53))"
    by (rule scaled_fl(2)[OF r _ p2_lo p2_hi]) (simp add: C_def)
  have t_eq: "t = fl (t1 * C)"
    by (simp add: t_def t1_def a_def C_def fl_150 fl_055 mult.commute)
  have cl: "165 / 2 - 1 / 2 ^ 44 \<le> (1 * (1 - 1 / 2 ^ 53) * 150 * (1 - 1 / 2 ^ 53) * C * (1 - 1 / 2 ^ 53) :: rat)"
    by (simp add: C_def)
  have ch: "(1 * (1 + 1 / 2 ^ 53) * 150 * (1 + 1 / 2 ^ 53) * C * (1 + 1 / 2 ^ 53) :: rat) \<le> 165 / 2 + 1 / 2 ^ 44"
    by (simp add: C_def)
  have lo: "r * (165 / 2 - 1 / 2 ^ 44) \<le> t"
    using t2_lo mult_left_mono[OF cl less_imp_le[OF r0]] by (simp only: t_eq)
  have hi: "t \<le> r * (165 / 2 + 1 / 2 ^ 44)"
    using t2_hi mult_left_mono[OF ch less_imp_le[OF r0]] by (simp only: t_eq)
  have "0 < r * (165 / 2 - 1 / 2 ^ 44)" using r0 by simp
  then show "0 < t" using lo by linarith
  have x: "(of_int (165 * int h) / of_int (2 * int w) :: rat) = r * (165 / 2)"
    by (simp add: r_def)
  have "\<bar>t - r * (165 / 2)\<bar> \<le> r / 2 ^ 44"
  proof -
    define d where "d = r / 2 ^ 44"
    define x0 where "x0 = r * (165 / 2)"
    have "r * (165 / 2 - 1 / 2 ^ 44) = x0 - d" "r * (165 / 2 + 1 / 2 ^ 44) = x0 + d"
      by (simp_all add: d_def x0_def algebra_simps)
    then have "x0 - d \<le> t" "t \<le> x0 + d" using lo hi by simp_all
    then have "\<bar>t - x0\<bar> \<le> d" by linarith
    then show ?thesis by (simp only: d_def x0_def)
  qed
  also have "r / 2 ^ 44 < 1 / of_int (2 * int w)"
  proof -
    have "(of_nat h :: rat) < of_nat (2 ^ 32)" using h by (simp only: of_nat_less_iff)
    then have "(of_nat h :: rat) < 2 ^ 43" by simp
    then have "of_nat h / (2 ^ 44 :: rat) < 1 / 2" by simp
    then have "of_nat h / (2 ^ 44 :: rat) / of_nat w < 1 / 2 / of_nat w"
      using w' by (simp only: divide_strict_right_mono)
    then show ?thesis by (simp add: r_def)
  qed
  finally show "\<bar>t - of_int (165 * int h) / of_int (2 * int w)\<bar> < 1 / of_int (2 * int w)"
    by (simp only: x)
qed

lemma newHeight_sandwich:
  assumes h: "h < 2 ^ 32" and w: "0 < w" "w < 2 ^ 32"
  shows "of_int (newHeight h w 150) \<le> (of_int (165 * int h) / of_int (2 * int w) :: rat)"
    and "(of_int (165 * int h) / of_int (2 * int w) :: rat) \<le> of_int (newHeight h w 150) + 1"
proof -
  let ?x = "of_int (165 * int h) / of_int (2 * int w) :: rat"
  have "of_int (newHeight h w 150) \<le> ?x \<and> ?x \<le> of_int (newHeight h w 150) + 1"
  proof (cases "h = 0")
    case True
    then show ?thesis
      by (simp add: newHeight_def aspectRatio_def fl_def py_int_def)
  next
    case False
    then have h0: "0 < h" by simp
    define t where "t = fl (fl (py_float 150 * aspectRatio h w) * fl (55 / 100))"
    have t0: "0 < t" and near: "\<bar>t - ?x\<bar> < 1 / of_int (2 * int w)"
      unfolding t_def by (rule height_product_near[OF h0 h w])+
    have nh: "newHeight h w 150 = \<lfloor>t\<rfloor>"
      using t0 by (simp add: newHeight_def t_def py_int_def)
    have D: "0 < 2 * int w" using w by simp
    show ?thesis
      unfolding nh using floor_near_fraction[OF D near] by simp
  qed
  then show "of_int (newHeight h w 150) \<le> ?x" and "?x \<le> of_int (newHeight h w 150) + 1"
    by simp_all
qed

text \<open>The glyph index before clamping, for a brightness offset \<open>a = brightness - 10\<close>.\<close>

lemma glyph_product_near:
  assumes a: "0 < a" "a \<le> 245"
  defines "t \<equiv> fl (fl (of_int a / 245) * 9)"
  shows "0 < t" and "\<bar>t - of_int (9 * a) / of_int 245\<bar> < 1 / of_int 245"
proof -
  define r :: rat where "r = of_int a / 245"
  have "(of_int 1 :: rat) \<le> of_int a" using a by (simp only: of_int_le_iff)
  then have a1: "(1::rat) \<le> of_int a" by simp
  have "(of_int a :: rat) \<le> of_int 245" using a by (simp only: of_int_le_iff)
  then have a2: "(of_int a :: rat) \<le> 245" by simp
  have "(1::rat) / 2 ^ 32 \<le> 1 / 245" by simp
  also have "\<dots> \<le> r" unfolding r_def using a1 by (simp add: divide_right_mono)
  finally have r: "1 / 2 ^ 32 \<le> r" .
  have r0: "0 < r" using a1 by (simp add: r_def)
  have r1: "r \<le> 1" using a2 by (simp add: r_def)
  have v_lo: "r * (1 * (1 - 1 / 2 ^ 53)) \<le> fl r"
    by (rule scaled_fl(1)[where cl = 1 and ch = 1, OF r]) simp_all
  have v_hi: "fl r \<le> r * (1 * (1 + 1 / 2 ^ 53))"
    by (rule scaled_fl(2)[where cl = 1 and ch = 1, OF r]) simp_all
  have p_lo: "r * (1 * (1 - 1 / 2 ^ 53) * 9) \<le> fl r * 9"
    by (rule scaled_mult(1)[OF _ v_lo v_hi]) simp
  have p_hi: "fl r * 9 \<le> r * (1 * (1 + 1 / 2 ^ 53) * 9)"
    by (rule scaled_mult(2)[OF _ v_lo v_hi]) simp
  have t_lo: "r * (1 * (1 - 1 / 2 ^ 53) * 9 * (1 - 1 / 2 ^ 53)) \<le> t"
    unfolding t_def r_def[symmetric] by (rule scaled_fl(1)[OF r _ p_lo p_hi]) simp
  have t_hi: "t \<le> r * (1 * (1 + 1 / 2 ^ 53) * 9 * (1 + 1 / 2 ^ 53))"
    unfolding t_def r_def[symmetric] by (rule scaled_fl(2)[OF r _ p_lo p_hi]) simp
  have cl: "9 - 1 / 2 ^ 40 \<le> (1 * (1 - 1 / 2 ^ 53) * 9 * (1 - 1 / 2 ^ 53) :: rat)" by simp
  have ch: "(1 * (1 + 1 / 2 ^ 53) * 9 * (1 + 1 / 2 ^ 53) :: rat) \<le> 9 + 1 / 2 ^ 40" by simp
  have lo: "r * (9 - 1 / 2 ^ 40) \<le> t"
    using t_lo mult_left_mono[OF cl less_imp_le[OF r0]] by linarith
  have hi: "t \<le> r * (9 + 1 / 2 ^ 40)"
    using t_hi mult_left_mono[OF ch less_imp_le[OF r0]] by linarith
  have "0 < r * (9 - 1 / 2 ^ 40)" using r0 by simp
  then show "0 < t" using lo by linarith
  have x: "(of_int (9 * a) / of_int 245 :: rat) = r * 9" by (simp add: r_def)
  have "\<bar>t - r * 9\<bar> \<le> r / 2 ^ 40"
  proof -
    define d where "d = r / 2 ^ 40"
    define x0 where "x0 = r * 9"
    have "r * (9 - 1 / 2 ^ 40) = x0 - d" "r * (9 + 1 / 2 ^ 40) = x0 + d"
      by (simp_all add: d_def x0_def algebra_simps)
    then have "x0 - d \<le> t" "t \<le> x0 + d" using lo hi by simp_all
    then have "\<bar>t - x0\<bar> \<le> d" by linarith
    then show ?thesis by (simp only: d_def x0_def)
  qed
  also have "r / 2 ^ 40 \<le> 1 / 2 ^ 40" using r1 by (simp add: divide_right_mono)
  also have "(1::rat) / 2 ^ 40 < 1 / of_int 245" by simp
  finally show "\<bar>t - of_int (9 * a) / of_int 245\<bar> < 1 / of_int 245" by (simp only: x)
qed

lemma glyph_core:
  assumes a: "0 \<le> a" "a \<le> 245"
  shows "py_int (fl (fl (of_int a / 245) * 9)) = a * 9 div 245"
proof -
  consider "a = 0" | "a = 245" | "0 < a" "a < 245" using a by linarith
  then show ?thesis
  proof cases
    case 1
    then show ?thesis by (simp add: fl_def py_int_def)
  next
    case 2
    then show ?thesis by (simp add: fl_eval)
  next
    case 3
    define t where "t = fl (fl (of_int a / 245) * 9)"
    have t0: "0 < t" and near: "\<bar>t - of_int (9 * a) / of_int 245\<bar> < 1 / of_int 245"
      unfolding t_def using 3 by (intro glyph_product_near; simp)+
    have D: "(0::int) < 245" by simp
    from floor_near_fraction[OF D near]
    have le: "of_int \<lfloor>t\<rfloor> \<le> (of_int (9 * a) / of_int 245 :: rat)"
      and ge: "(of_int (9 * a) / of_int 245 :: rat) \<le> of_int \<lfloor>t\<rfloor> + 1" by simp_all
    have "(of_int (\<lfloor>t\<rfloor> * 245) :: rat) \<le> of_int (9 * a)" using le by (simp add: field_simps)
    then have i1: "\<lfloor>t\<rfloor> * 245 \<le> 9 * a" by (simp only: of_int_le_iff)
    have "(of_int (9 * a) :: rat) \<le> of_int ((\<lfloor>t\<rfloor> + 1) * 245)" using ge by (simp add: field_simps)
    then have i2: "9 * a \<le> (\<lfloor>t\<rfloor> + 1) * 245" by (simp only: of_int_le_iff)
    have nd: "\<not> 245 dvd 9 * a"
    proof
      assume "245 dvd 9 * a"
      moreover have "gcd (245::int) 9 = 1" by code_simp
      then have "coprime (245::int) 9" by (simp only: coprime_iff_gcd_eq_1)
      ultimately have "245 dvd a" by (simp add: coprime_dvd_mult_right_iff)
      then show False using 3 by (auto dest: zdvd_imp_le)
    qed
    have "9 * a \<noteq> (\<lfloor>t\<rfloor> + 1) * 245" using nd by (metis dvd_triv_right)
    then have i3: "9 * a < (\<lfloor>t\<rfloor> + 1) * 245" using i2 by simp
    have "9 * a div 245 = \<lfloor>t\<rfloor>"
    proof (rule int_div_pos_eq[where r = "9 * a - 245 * \<lfloor>t\<rfloor>"])
      show "9 * a = 245 * \<lfloor>t\<rfloor> + (9 * a - 245 * \<lfloor>t\<rfloor>)" by simp
      show "0 \<le> 9 * a - 245 * \<lfloor>t\<rfloor>" using i1 by simp
      show "9 * a - 245 * \<lfloor>t\<rfloor> < 245" using i3 by simp
    qed
    then show ?thesis using t0 by (simp add: py_int_def t_def mult.commute)
  qed
qed

lemma ramp_length: "length ASCII_CHARS = 10" by (simp add: ASCII_CHARS_def)

lemma uint_offset:
  fixes b :: u8
  assumes "10 \<le> b"
  shows "0 \<le> uint b - 10" and "uint b - 10 \<le> 245"
proof -
  have "uint (10 :: u8) \<le> uint b" using assms by (simp only: word_le_def)
  then show "0 \<le> uint b - 10" by simp
  have "uint b < 2 ^ 8" using uint_bounded[of b] by simp
  then show "uint b - 10 \<le> 245" by simp
qed

text \<open>In the visible range the index is the exact quotient, truncated.\<close>

lemma glyphIndex_closed:
  fixes b :: u8
  assumes "10 \<le> b"
  shows "glyphIndex b = (uint b - 10) * 9 div 245"
proof -
  let ?a = "uint b - 10"
  have a: "0 \<le> ?a" "?a \<le> 245" using uint_offset[OF assms] by simp_all
  have core: "py_int (fl (fl (of_int ?a / 245) * 9)) = ?a * 9 div 245"
    by (rule glyph_core[OF a])
  have "0 \<le> ?a * 9 div 245" using a by (simp add: pos_imp_zdiv_nonneg_iff)
  moreover have "?a * 9 div 245 \<le> 9" using a by simp
  ultimately show ?thesis
    using core by (simp add: glyphIndex_def ramp_length fl_9 Let_def)
qed

section \<open>GlyphMapper: the ramp index\<close>

text \<open>
  Claim C1, as amended. For every brightness \<open>b\<close> with \<open>10 \<le> b \<le> 255\<close> the glyph index is
  \<open>(b - 10) / (255 - 10) * (rampLength - 1)\<close> truncated (\<^verbatim>\<open>int(...)\<close>), not rounded; it lies
  in \<open>[0, rampLength - 1]\<close>, so the clamp changes nothing. The binary64 rounding of the
  quotient and of the product never moves the value across an integer.
\<close>

theorem glyphIndex_truncates: "10 \<le> (b::u8) \<Longrightarrow>
   glyphIndex b = \<lfloor>of_int (uint b - 10) / of_int (255 - 10) * of_int (int (length ASCII_CHARS) - 1) :: rat\<rfloor>
   \<and> 0 \<le> glyphIndex b \<and> glyphIndex b \<le> int (length ASCII_CHARS) - 1"
proof -
  assume b: "10 \<le> b"
  let ?a = "uint b - 10"
  have a: "0 \<le> ?a" "?a \<le> 245" using uint_offset[OF b] by simp_all
  have "(of_int ?a / of_int (255 - 10) * of_int (int (length ASCII_CHARS) - 1) :: rat)
      = of_int (?a * 9) / of_int 245" by (simp add: ramp_length)
  then have "\<lfloor>of_int ?a / of_int (255 - 10) * of_int (int (length ASCII_CHARS) - 1) :: rat\<rfloor>
      = ?a * 9 div 245" by (simp only: floor_divide_of_int_eq)
  moreover have "0 \<le> ?a * 9 div 245" using a by (simp add: pos_imp_zdiv_nonneg_iff)
  moreover have "?a * 9 div 245 \<le> 9" using a by simp
  ultimately show ?thesis using glyphIndex_closed[OF b] by (simp add: ramp_length)
qed

text \<open>Witness for C1 as amended: brightness 30 has index \<open>\<lfloor>20 / 245 * 9\<rfloor> = 0\<close>.\<close>

theorem glyphIndex_truncates_witness: "(10::u8) \<le> 30 \<and> glyphIndex 30 = 0"
  using glyphIndex_truncates[of 30] by (simp add: ramp_length floor_numeral_div)

text \<open>
  Counterexample to C1 as stated: at brightness 30 the exact value is \<open>20 / 245 * 9\<close>, about
  0.73; rounding gives index 1, the code gives index 0.
\<close>

theorem glyphIndex_not_rounded: "glyphIndex 30 = 0 \<and> spec_glyphIndex 30 = 1"
  by (simp add: glyphIndex_def fl_eval spec_glyphIndex_def ramp_length round_def)

text \<open>
  Claim C7. For all brightness values \<open>b1 \<le> b2\<close> in \<open>[10, 255]\<close> the ramp index of \<open>b1\<close> is
  at most the ramp index of \<open>b2\<close>.
\<close>

theorem glyphIndex_monotone: "10 \<le> (b1::u8) \<Longrightarrow> b1 \<le> b2 \<Longrightarrow> glyphIndex b1 \<le> glyphIndex b2"
proof -
  assume b1: "10 \<le> b1" and le: "b1 \<le> b2"
  have b2: "10 \<le> b2" using b1 le by simp
  have "uint b1 \<le> uint b2" using le by (simp only: word_le_def)
  then have "(uint b1 - 10) * 9 \<le> (uint b2 - 10) * 9" by simp
  then have "(uint b1 - 10) * 9 div 245 \<le> (uint b2 - 10) * 9 div 245"
    by (rule zdiv_mono1) simp
  then show ?thesis by (simp only: glyphIndex_closed[OF b1] glyphIndex_closed[OF b2])
qed

text \<open>Witness for C7: brightness 30 and brightness 200.\<close>

theorem glyphIndex_monotone_witness: "(10::u8) \<le> 30 \<and> (30::u8) \<le> 200 \<and> glyphIndex 30 \<le> glyphIndex 200"
  using glyphIndex_monotone[of 30 200] by simp

section \<open>FrameTransform: the resized shape\<close>


lemma resizeFrame_Inr:
  assumes "resizeFrame (h, w) nw = Inr (h', w')"
  shows "w' = nw" and "h' = newHeight h w nw" and "0 < h'" and "0 < w" and "0 < h" and "0 < nw"
  using assms by (auto simp: resizeFrame_def Let_def split: if_splits)

lemma exact_height:
  "(of_int 150 * (of_nat h / of_nat w) * (55 / 100) :: rat) = of_int (165 * int h) / of_int (2 * int w)"
  by simp

text \<open>
  Claim C4, as amended. For every input frame with sides below \<open>2 ^ 32\<close> on which the resize
  step returns, the result is 150 wide and its height is \<open>150 * (sourceHeight / sourceWidth) * 0.55\<close>
  truncated (\<^verbatim>\<open>int(...)\<close>), not rounded; where that exact product is an integer, binary64
  rounding can make the height one less than it.
\<close>

theorem resizeFrame_shape:
  assumes "w < 2 ^ 32" and "h < 2 ^ 32" and "resizeFrame (h, w) 150 = Inr (h', w')"
  shows "w' = 150 \<and>
         (h' = \<lfloor>of_int 150 * (of_nat h / of_nat w) * (55 / 100) :: rat\<rfloor>
          \<or> of_int h' + 1 = (of_int 150 * (of_nat h / of_nat w) * (55 / 100) :: rat))"
proof -
  let ?x = "of_int 150 * (of_nat h / of_nat w) * (55 / 100) :: rat"
  note r = resizeFrame_Inr[OF assms(3)]
  have le: "of_int h' \<le> ?x" and ge: "?x \<le> of_int h' + 1"
    unfolding exact_height r(2)
    using newHeight_sandwich[OF assms(2) r(4) assms(1)] by simp_all
  have "h' = \<lfloor>?x\<rfloor> \<or> of_int h' + 1 = ?x"
  proof (cases "of_int h' + 1 = ?x")
    case True
    then show ?thesis by simp
  next
    case False
    then have "?x < of_int h' + 1" using ge by simp
    then have "\<lfloor>?x\<rfloor> = h'" using le by (intro floor_unique) simp_all
    then show ?thesis by simp
  qed
  then show ?thesis using r(1) by simp
qed

text \<open>Witness for C4 as amended: a 640 by 480 frame becomes 150 by 61.\<close>

theorem resizeFrame_shape_witness:
  "(640::nat) < 2 ^ 32 \<and> (480::nat) < 2 ^ 32 \<and> resizeFrame (480, 640) 150 = Inr (61, 150)
   \<and> (61::int) = \<lfloor>of_int 150 * (of_nat 480 / of_nat 640) * (55 / 100) :: rat\<rfloor>"
proof -
  have r: "resizeFrame (480, 640) 150 = Inr (61, 150)"
    by (simp add: resizeFrame_def newHeight_def aspectRatio_def fl_eval)
  have "(640::nat) < 2 ^ 32" "(480::nat) < 2 ^ 32" by simp_all
  from resizeFrame_shape[OF this r] show ?thesis using r by (simp add: floor_numeral_div)
qed

text \<open>
  Claim C5, as amended. For every input frame with sides below \<open>2 ^ 32\<close> on which the resize
  step returns \<open>(outHeight, outWidth)\<close>:
  \<open>\<bar>outHeight / outWidth - 0.55 * inHeight / inWidth\<bar> \<le> 1 / outWidth\<close>. The bound is reached,
  so the inequality is not strict.
\<close>

theorem resizeFrame_aspect:
  assumes "w < 2 ^ 32" and "h < 2 ^ 32" and "resizeFrame (h, w) 150 = Inr (outHeight, outWidth)"
  shows "\<bar>of_int outHeight / of_int outWidth - 55 / 100 * (of_nat h / of_nat w)\<bar>
         \<le> (1::rat) / of_int outWidth"
proof -
  note r = resizeFrame_Inr[OF assms(3)]
  let ?x = "of_int (165 * int h) / of_int (2 * int w) :: rat"
  have le: "of_int outHeight \<le> ?x" and ge: "?x \<le> of_int outHeight + 1"
    unfolding r(2) using newHeight_sandwich[OF assms(2) r(4) assms(1)] by simp_all
  define x where "x = ?x"
  define y :: rat where "y = of_int outHeight"
  have x150: "(55 / 100 * (of_nat h / of_nat w) :: rat) = x / 150" by (simp add: x_def)
  have "\<bar>y - x\<bar> \<le> 1" using le ge unfolding x_def y_def by linarith
  then have "\<bar>y - x\<bar> / 150 \<le> 1 / 150" by simp
  moreover have "\<bar>y - x\<bar> / 150 = \<bar>(y - x) / 150\<bar>" by simp
  moreover have "(y - x) / 150 = y / 150 - x / 150" by (rule diff_divide_distrib)
  ultimately have "\<bar>y / 150 - x / 150\<bar> \<le> 1 / 150" by simp
  then show ?thesis unfolding x150 r(1) y_def by simp
qed

text \<open>Witness for C5 as amended: a frame 15 wide and 146 high.\<close>

theorem resizeFrame_aspect_witness:
  "(15::nat) < 2 ^ 32 \<and> (146::nat) < 2 ^ 32 \<and> resizeFrame (146, 15) 150 = Inr (802, 150)
   \<and> \<bar>of_int 802 / of_int 150 - 55 / 100 * (of_nat 146 / of_nat 15)\<bar> \<le> (1::rat) / of_int 150"
proof -
  have r: "resizeFrame (146, 15) 150 = Inr (802, 150)"
    by (simp add: resizeFrame_def newHeight_def aspectRatio_def fl_eval)
  have "(15::nat) < 2 ^ 32" "(146::nat) < 2 ^ 32" by simp_all
  from resizeFrame_aspect[OF this r] show ?thesis using r by simp
qed

text \<open>
  Counterexample to C4 as stated: for a 640 by 480 frame the exact product is 61.875; rounding
  gives 62 rows, the code gives 61.
\<close>

theorem resizeFrame_height_not_rounded:
  "resizeFrame (480, 640) 150 = Inr (61, 150) \<and> spec_newHeight 480 640 150 = 62"
  by (simp add: resizeFrame_def newHeight_def aspectRatio_def spec_newHeight_def fl_eval round_def)

text \<open>
  Counterexample to C5 as stated: for a frame 15 wide and 146 high the exact product is 803,
  the binary64 product falls just below it and truncates to 802; the difference of the two
  ratios is exactly \<open>1 / 150\<close>, not less.
\<close>

theorem resizeFrame_aspect_not_strict:
  "resizeFrame (146, 15) 150 = Inr (802, 150)
   \<and> \<not> \<bar>of_int 802 / of_int 150 - 55 / 100 * (of_nat 146 / of_nat 15)\<bar> < (1::rat) / of_int 150"
  by (simp add: resizeFrame_def newHeight_def aspectRatio_def fl_eval)

section \<open>GlyphMapper: colour quantisation\<close>

text \<open>Quantisation on the unsigned values of the channels.\<close>

lemma unat_quant:
  fixes c :: u8
  shows "unat ((c div 64) * 64) = unat c div 64 * 64"
proof -
  have "unat c < 256" using unsigned_less[of c, where ?'a = nat] by simp
  then have "unat c div 64 * 64 < 256" by simp
  then show ?thesis by (simp add: unat_word_ariths unat_div)
qed

lemma quant_idem:
  fixes c :: u8
  shows "((c div 64) * 64) div 64 * 64 = (c div 64) * 64"
  by (rule word_unat_eq_iff[THEN iffD2]) (simp add: unat_quant)

lemma quant_levels:
  fixes c :: u8
  shows "(c div 64) * 64 \<in> {0, 64, 128, 192}"
proof -
  have "unat c < 256" using unsigned_less[of c, where ?'a = nat] by simp
  then have "unat c div 64 * 64 \<in> {0, 64, 128, 192}" by auto
  then have "unat ((c div 64) * 64) \<in> {unat (0::u8), unat (64::u8), unat (128::u8), unat (192::u8)}"
    by (simp add: unat_quant)
  then show ?thesis by (auto simp only: insert_iff empty_iff word_unat_eq_iff[symmetric])
qed

lemma quant_floor:
  fixes c :: u8
  shows "(c div 64) * 64 \<le> c" and "unat c < unat ((c div 64) * 64) + 64"
proof -
  show "(c div 64) * 64 \<le> c" by (simp add: word_le_nat_alt unat_quant)
  show "unat c < unat ((c div 64) * 64) + 64" by (simp add: unat_quant)
qed

text \<open>
  Claim C6. Quantisation is idempotent, every output channel of an 8-bit input is one of
  0, 64, 128 and 192, it is the largest multiple of 64 not above the input channel, and
  the colour string of the quantised triple is the colour string of the triple.
\<close>

theorem quantize_idempotent:
  "quantize (quantize (r, g, b)) = quantize (r, g, b)
   \<and> (case quantize (r, g, b) of (r', g', b') \<Rightarrow>
        r' \<in> {0, 64, 128, 192} \<and> g' \<in> {0, 64, 128, 192} \<and> b' \<in> {0, 64, 128, 192}
        \<and> r' \<le> r \<and> g' \<le> g \<and> b' \<le> b
        \<and> unat r < unat r' + 64 \<and> unat g < unat g' + 64 \<and> unat b < unat b' + 64
        \<and> compressColor r' g' b' = compressColor r g b)"
  using quant_levels[of r] quant_levels[of g] quant_levels[of b]
  by (simp add: quantize_def compressColor_def quant_idem quant_floor del: insert_iff)

section \<open>DiffRenderer: one visit, one pass\<close>

lemma fold_nested:
  "fold (\<lambda>y. fold (\<lambda>x. g y x) xs) ys s
   = fold (\<lambda>p. g (snd p) (fst p)) (concat (map (\<lambda>y. map (\<lambda>x. (x, y)) xs) ys)) s"
proof (induction ys arbitrary: s)
  case Nil
  then show ?case by simp
next
  case (Cons y ys)
  have "fold (\<lambda>p. g (snd p) (fst p)) (map (\<lambda>x. (x, y)) xs) s = fold (\<lambda>x. g y x) xs s"
    by (simp add: fold_map comp_def)
  then show ?case using Cons.IH by simp
qed

lemma renderCells_visitCells:
  "renderCells f W H s
   = visitCells f (margin W (cols f) cellWidth) (margin H (rows f) cellHeight) (cell_order f) s"
  by (simp add: renderCells_def visitCells_def cell_order_def Let_def fold_nested)

lemma set_cell_order: "set (cell_order f) = {(x, y). x < cols f \<and> y < rows f}"
  by (auto simp: cell_order_def)

lemma distinct_cell_order: "distinct (cell_order f)"
proof (cases "cols f = 0")
  case True
  then have "cell_order f = []" by (simp add: cell_order_def)
  then show ?thesis by simp
next
  case False
  show ?thesis
    unfolding cell_order_def
  proof (rule distinct_concat)
    show "distinct (map (\<lambda>y. map (\<lambda>x. (x, y)) [0..<cols f]) [0..<rows f])"
      using False by (auto simp: distinct_map inj_on_def)
  qed (auto simp: distinct_map inj_on_def)
qed

lemma visitCells_Nil: "visitCells f mx my [] s = s"
  by (simp add: visitCells_def)

lemma visitCells_Cons:
  "visitCells f mx my (p # ps) s = visitCells f mx my ps (visitCell f mx my (snd p) (fst p) s)"
  by (simp add: visitCells_def)

text \<open>One visit.\<close>

lemma visitCell_dark: "gray f y x < 10 \<Longrightarrow> visitCell f mx my y x s = s"
  by (simp add: visitCell_def)

lemma visitCell_same:
  "lastFrame s (x, y) = Some (cellGlyph f y x) \<Longrightarrow> visitCell f mx my y x s = s"
  by (simp add: visitCell_def Let_def)

lemma visitCell_lastFrame:
  "lastFrame (visitCell f mx my y x s)
   = (if gray f y x < 10 then lastFrame s else (lastFrame s)((x, y) \<mapsto> cellGlyph f y x))"
  by (auto simp: visitCell_def Let_def create_text_def itemconfig_def map_upd_triv
           split: option.splits)

lemma visitCell_charMap_other:
  "q \<noteq> (x, y) \<Longrightarrow> charMap (visitCell f mx my y x s) q = charMap s q"
  by (auto simp: visitCell_def Let_def create_text_def itemconfig_def split: option.splits)

lemma visitCell_calls:
  "\<exists>cs. calls (visitCell f mx my y x s) = calls s @ cs \<and> length cs \<le> 1
        \<and> (\<forall>c \<in> set cs. call_pos c = Some (x, y) \<and> tick_call f mx my c)"
  by (auto simp: visitCell_def Let_def create_text_def itemconfig_def tick_call_def
           split: option.splits)

lemma consistentI:
  assumes "dom (lastFrame s) = dom (charMap s)"
    and "\<And>p q h. charMap s p = Some h \<Longrightarrow> charMap s q = Some h \<Longrightarrow> p = q"
    and "\<And>p h. charMap s p = Some h \<Longrightarrow> h < next_id s \<and> items s h \<noteq> None"
    and "\<And>p. length (creates_at p (calls s)) = (if charMap s p = None then 0 else 1)"
  shows "consistent s"
  unfolding consistent_def using assms by blast

lemma consistentD:
  assumes "consistent s"
  shows "dom (lastFrame s) = dom (charMap s)"
    and "charMap s p = Some h \<Longrightarrow> charMap s q = Some h \<Longrightarrow> p = q"
    and "charMap s p = Some h \<Longrightarrow> h < next_id s"
    and "charMap s p = Some h \<Longrightarrow> items s h \<noteq> None"
    and "length (creates_at p (calls s)) = (if charMap s p = None then 0 else 1)"
  using assms unfolding consistent_def by blast+

lemma creates_at_snoc:
  "creates_at q (cs @ [c]) = creates_at q cs @ (if call_pos c = Some q \<and> is_create c then [c] else [])"
  by (simp add: creates_at_def calls_at_def)

lemma visitCell_consistent:
  assumes "consistent s"
  shows "consistent (visitCell f mx my y x s)"
proof -
  let ?cc = "cellGlyph f y x"
  note d = consistentD[OF assms]
  define s' where "s' = visitCell f mx my y x s"
  consider "gray f y x < 10 \<or> lastFrame s (x, y) = Some ?cc"
    | h where "\<not> gray f y x < 10" "lastFrame s (x, y) \<noteq> Some ?cc" "charMap s (x, y) = Some h"
    | "\<not> gray f y x < 10" "lastFrame s (x, y) \<noteq> Some ?cc" "charMap s (x, y) = None"
    by (cases "charMap s (x, y)") auto
  then have "consistent s'"
  proof cases
    case 1
    then show ?thesis using assms by (auto simp: s'_def visitCell_dark visitCell_same)
  next
    case 2
    obtain it where it: "items s h = Some it" using d(4)[OF 2(3)] by auto
    have v: "s' = s\<lparr>lastFrame := (lastFrame s)((x, y) \<mapsto> ?cc),
             items := (items s)(h \<mapsto> it\<lparr>item_text := fst ?cc, item_fill := snd ?cc\<rparr>),
             calls := calls s @ [ItemConfig (x, y) h (fst ?cc) (snd ?cc)]\<rparr>"
      using 2 it by (simp add: s'_def visitCell_def Let_def itemconfig_def)
    have lf: "lastFrame s' = (lastFrame s)((x, y) \<mapsto> ?cc)"
      and cm: "charMap s' = charMap s"
      and its: "items s' = (items s)(h \<mapsto> it\<lparr>item_text := fst ?cc, item_fill := snd ?cc\<rparr>)"
      and nx: "next_id s' = next_id s"
      and cl: "calls s' = calls s @ [ItemConfig (x, y) h (fst ?cc) (snd ?cc)]"
      by (simp_all add: v)
    show ?thesis
    proof (rule consistentI)
      have "(x, y) \<in> dom (charMap s)" using 2(3) by auto
      then show "dom (lastFrame s') = dom (charMap s')" unfolding lf cm using d(1) by auto
    next
      fix p q h' assume "charMap s' p = Some h'" "charMap s' q = Some h'"
      then show "p = q" unfolding cm by (rule d(2))
    next
      fix p h' assume "charMap s' p = Some h'"
      then show "h' < next_id s' \<and> items s' h' \<noteq> None"
        unfolding cm nx its using d(3)[of p h'] d(4)[of p h'] by auto
    next
      fix p show "length (creates_at p (calls s')) = (if charMap s' p = None then 0 else 1)"
        unfolding cm cl using d(5)[of p] by (simp add: creates_at_snoc)
    qed
  next
    case 3
    let ?n = "next_id s"
    let ?c = "CreateText (x, y) (mx + int x * cellWidth) (my + int y * cellHeight) (fst ?cc) (snd ?cc)"
    have v: "s' = s\<lparr>lastFrame := (lastFrame s)((x, y) \<mapsto> ?cc),
             items := (items s)(?n \<mapsto> \<lparr>item_x = mx + int x * cellWidth, item_y = my + int y * cellHeight,
                                      item_text = fst ?cc, item_fill = snd ?cc\<rparr>),
             next_id := Suc ?n,
             calls := calls s @ [?c],
             charMap := (charMap s)((x, y) \<mapsto> ?n)\<rparr>"
      using 3 by (simp add: s'_def visitCell_def Let_def create_text_def)
    have lf: "lastFrame s' = (lastFrame s)((x, y) \<mapsto> ?cc)"
      and cm: "charMap s' = (charMap s)((x, y) \<mapsto> ?n)"
      and its: "items s' = (items s)(?n \<mapsto> \<lparr>item_x = mx + int x * cellWidth, item_y = my + int y * cellHeight,
                                      item_text = fst ?cc, item_fill = snd ?cc\<rparr>)"
      and nx: "next_id s' = Suc ?n"
      and cl: "calls s' = calls s @ [?c]"
      by (simp_all add: v)
    show ?thesis
    proof (rule consistentI)
      show "dom (lastFrame s') = dom (charMap s')" unfolding lf cm using d(1) by simp
    next
      fix p q h'
      assume a: "charMap s' p = Some h'" "charMap s' q = Some h'"
      show "p = q"
      proof (cases "p = (x, y)"; cases "q = (x, y)")
        assume "p = (x, y)" "q \<noteq> (x, y)"
        then have "charMap s q = Some ?n" using a by (simp add: cm)
        then show ?thesis using d(3)[of q ?n] by simp
      next
        assume "p \<noteq> (x, y)" "q = (x, y)"
        then have "charMap s p = Some ?n" using a by (simp add: cm)
        then show ?thesis using d(3)[of p ?n] by simp
      next
        assume "p \<noteq> (x, y)" "q \<noteq> (x, y)"
        then show ?thesis using a d(2)[of p h' q] by (simp add: cm)
      qed simp
    next
      fix p h'
      assume a: "charMap s' p = Some h'"
      show "h' < next_id s' \<and> items s' h' \<noteq> None"
        using a d(3)[of p h'] d(4)[of p h'] unfolding cm nx its by (cases "p = (x, y)") auto
    next
      fix p
      show "length (creates_at p (calls s')) = (if charMap s' p = None then 0 else 1)"
        unfolding cm cl using d(5)[of p] d(5)[of "(x, y)"] 3(3)
        by (cases "p = (x, y)") (simp_all add: creates_at_snoc)
    qed
  qed
  then show ?thesis by (simp only: s'_def)
qed

lemma visitCell_items_other:
  assumes "consistent s" and "q \<noteq> (x, y) \<or> gray f y x < 10" and "charMap s q = Some h"
  shows "items (visitCell f mx my y x s) h = items s h"
proof (cases "gray f y x < 10")
  case True
  then show ?thesis by (simp add: visitCell_dark)
next
  case False
  then have q: "q \<noteq> (x, y)" using assms(2) by simp
  have lt: "h < next_id s" by (rule consistentD(3)[OF assms(1,3)])
  have ne: "\<And>h'. charMap s (x, y) = Some h' \<Longrightarrow> h' \<noteq> h"
    using consistentD(2)[OF assms(1), of "(x, y)" h q] assms(3) q by auto
  show ?thesis using lt ne
    by (auto simp: visitCell_def Let_def create_text_def itemconfig_def split: option.splits)
qed

text \<open>A pass over a list of cells.\<close>

lemma visitCells_lastFrame:
  "lastFrame (visitCells f mx my ps s) q
   = (if q \<in> set ps \<and> \<not> gray f (snd q) (fst q) < 10
      then Some (cellGlyph f (snd q) (fst q)) else lastFrame s q)"
proof (induction ps arbitrary: s)
  case Nil
  then show ?case by (simp add: visitCells_Nil)
next
  case (Cons p ps)
  show ?case
    unfolding visitCells_Cons Cons.IH visitCell_lastFrame
    by (cases p; cases q) auto
qed

lemma visitCells_noop:
  assumes "\<forall>q \<in> set ps. \<not> gray f (snd q) (fst q) < 10 \<longrightarrow> lastFrame s q = Some (cellGlyph f (snd q) (fst q))"
  shows "visitCells f mx my ps s = s"
  using assms
proof (induction ps)
  case Nil
  then show ?case by (simp add: visitCells_Nil)
next
  case (Cons p ps)
  have "visitCell f mx my (snd p) (fst p) s = s"
  proof (cases "gray f (snd p) (fst p) < 10")
    case True
    then show ?thesis by (rule visitCell_dark)
  next
    case False
    then have "lastFrame s (fst p, snd p) = Some (cellGlyph f (snd p) (fst p))"
      using Cons.prems by simp
    then show ?thesis by (rule visitCell_same)
  qed
  then show ?case using Cons by (simp add: visitCells_Cons)
qed

lemma visitCells_charMap_other:
  assumes "q \<notin> set ps \<or> gray f (snd q) (fst q) < 10"
  shows "charMap (visitCells f mx my ps s) q = charMap s q"
  using assms
proof (induction ps arbitrary: s)
  case Nil
  then show ?case by (simp add: visitCells_Nil)
next
  case (Cons p ps)
  have "charMap (visitCell f mx my (snd p) (fst p) s) q = charMap s q"
  proof (cases "q = p")
    case True
    then show ?thesis using Cons.prems by (auto simp: visitCell_dark)
  next
    case False
    then show ?thesis by (intro visitCell_charMap_other) (cases p, auto)
  qed
  moreover have "q \<notin> set ps \<or> gray f (snd q) (fst q) < 10" using Cons.prems by auto
  ultimately show ?case using Cons.IH by (simp add: visitCells_Cons)
qed

lemma visitCells_consistent:
  "consistent s \<Longrightarrow> consistent (visitCells f mx my ps s)"
  by (induction ps arbitrary: s) (simp_all add: visitCells_Nil visitCells_Cons visitCell_consistent)

lemma visitCells_items_other:
  assumes "consistent s" and "q \<notin> set ps \<or> gray f (snd q) (fst q) < 10" and "charMap s q = Some h"
  shows "items (visitCells f mx my ps s) h = items s h"
  using assms
proof (induction ps arbitrary: s)
  case Nil
  then show ?case by (simp add: visitCells_Nil)
next
  case (Cons p ps)
  let ?s1 = "visitCell f mx my (snd p) (fst p) s"
  have side: "q \<noteq> (fst p, snd p) \<or> gray f (snd p) (fst p) < 10" using Cons.prems(2) by auto
  have i1: "items ?s1 h = items s h"
    by (rule visitCell_items_other[OF Cons.prems(1) side Cons.prems(3)])
  have c1: "consistent ?s1" by (rule visitCell_consistent[OF Cons.prems(1)])
  have m1: "charMap ?s1 q = Some h"
    using visitCells_charMap_other[of q "[p]" f mx my s] Cons.prems(2,3)
    by (auto simp: visitCells_Cons visitCells_Nil)
  have "q \<notin> set ps \<or> gray f (snd q) (fst q) < 10" using Cons.prems(2) by auto
  from Cons.IH[OF c1 this m1] i1 show ?case by (simp add: visitCells_Cons)
qed

lemma calls_at_append: "calls_at q (xs @ ys) = calls_at q xs @ calls_at q ys"
  by (simp add: calls_at_def)

lemma visitCells_calls:
  "\<exists>cs. calls (visitCells f mx my ps s) = calls s @ cs
        \<and> (\<forall>q. length (calls_at q cs) \<le> count_list ps q)
        \<and> (\<forall>c \<in> set cs. tick_call f mx my c)"
proof (induction ps arbitrary: s)
  case Nil
  then show ?case by (simp add: visitCells_Nil calls_at_def)
next
  case (Cons p ps)
  let ?s1 = "visitCell f mx my (snd p) (fst p) s"
  obtain c1 where c1: "calls ?s1 = calls s @ c1" "length c1 \<le> 1"
      "\<forall>c \<in> set c1. call_pos c = Some (fst p, snd p) \<and> tick_call f mx my c"
    using visitCell_calls[of f mx my "snd p" "fst p" s] by blast
  obtain c2 where c2: "calls (visitCells f mx my ps ?s1) = calls ?s1 @ c2"
      "\<forall>q. length (calls_at q c2) \<le> count_list ps q" "\<forall>c \<in> set c2. tick_call f mx my c"
    using Cons.IH[of ?s1] by blast
  have at1: "length (calls_at q c1) \<le> (if p = q then 1 else 0)" for q
  proof (cases "p = q")
    case True
    have "length (calls_at q c1) \<le> length c1" by (simp add: calls_at_def)
    then show ?thesis using True c1(2) by simp
  next
    case False
    then have "calls_at q c1 = []" using c1(3) by (auto simp: calls_at_def filter_empty_conv)
    then show ?thesis by simp
  qed
  have "calls (visitCells f mx my (p # ps) s) = calls s @ (c1 @ c2)"
    by (simp add: visitCells_Cons c1(1) c2(1))
  moreover have "\<forall>q. length (calls_at q (c1 @ c2)) \<le> count_list (p # ps) q"
  proof
    fix q
    show "length (calls_at q (c1 @ c2)) \<le> count_list (p # ps) q"
      using at1[of q] c2(2)[rule_format, of q] by (auto simp: calls_at_append)
  qed
  moreover have "\<forall>c \<in> set (c1 @ c2). tick_call f mx my c" using c1(3) c2(3) by auto
  ultimately show ?case by blast
qed

text \<open>A tick that has a frame.\<close>

lemma updateCanvas_frame:
  assumes "P raw = Inr f" and "updateCanvas P (Some raw) W H s = Inr s'"
  shows "s' = (renderCells f W H s)\<lparr>calls := calls (renderCells f W H s) @ [After 1]\<rparr>"
  using assms by (simp add: updateCanvas_def Let_def)

lemma distinct_count_le: "distinct xs \<Longrightarrow> count_list xs q \<le> 1"
  by (induction xs) auto

lemma count_cell_order: "count_list (cell_order f) q \<le> 1"
  by (rule distinct_count_le[OF distinct_cell_order])

lemma tick_calls:
  assumes "P raw = Inr f" and "updateCanvas P (Some raw) W H s = Inr s'"
  shows "\<exists>cs. new_calls s s' = cs @ [After 1]
        \<and> (\<forall>q. length (calls_at q cs) \<le> 1)
        \<and> (\<forall>c \<in> set cs. tick_call f (margin W (cols f) cellWidth) (margin H (rows f) cellHeight) c)"
proof -
  let ?mx = "margin W (cols f) cellWidth" and ?my = "margin H (rows f) cellHeight"
  obtain cs where cs: "calls (visitCells f ?mx ?my (cell_order f) s) = calls s @ cs"
      "\<forall>q. length (calls_at q cs) \<le> count_list (cell_order f) q"
      "\<forall>c \<in> set cs. tick_call f ?mx ?my c"
    using visitCells_calls[of f ?mx ?my "cell_order f" s] by blast
  have "new_calls s s' = cs @ [After 1]"
    unfolding updateCanvas_frame[OF assms] renderCells_visitCells
    by (simp add: new_calls_def cs(1))
  moreover have "\<forall>q. length (calls_at q cs) \<le> 1"
    using cs(2) count_cell_order[of f] by (meson order_trans)
  ultimately show ?thesis using cs(3) by blast
qed

lemma calls_at_After: "calls_at q (cs @ [After n]) = calls_at q cs"
  by (simp add: calls_at_def)

lemma consistent_After: "consistent s \<Longrightarrow> consistent (s\<lparr>calls := calls s @ [After n]\<rparr>)"
  by (simp add: consistent_def creates_at_def calls_at_After)

lemma consistent_init: "consistent init_state"
  by (simp add: consistent_def init_state_def creates_at_def calls_at_def)

lemma reachable_consistent: "reachable s \<Longrightarrow> consistent s"
proof (induction rule: reachable.induct)
  case reachable_init
  then show ?case by (rule consistent_init)
next
  case (reachable_tick s pipeline fetched w h s')
  show ?case
  proof (cases fetched)
    case None
    then have "s' = s\<lparr>calls := calls s @ [After 1]\<rparr>"
      using reachable_tick.hyps(2) by (simp add: updateCanvas_def)
    then show ?thesis using reachable_tick.IH by (simp add: consistent_After)
  next
    case (Some raw)
    then obtain f where f: "pipeline raw = Inr f"
      using reachable_tick.hyps(2) by (auto simp: updateCanvas_def split: sum.splits)
    have "consistent (renderCells f w h s)"
      unfolding renderCells_visitCells by (rule visitCells_consistent[OF reachable_tick.IH])
    then show ?thesis
      using updateCanvas_frame[OF f reachable_tick.hyps(2)[unfolded Some]]
      by (simp add: consistent_After)
  qed
qed

text \<open>A creation made in a pass is the first for its cell, and its item is still as created when the
  pass ends.\<close>

lemma visitCell_created:
  assumes "calls (visitCell f mx my y x s) = calls s @ c1"
    and "CreateText p px py t c \<in> set c1"
  shows "p = (x, y) \<and> charMap s p = None
       \<and> charMap (visitCell f mx my y x s) p = Some (next_id s)
       \<and> items (visitCell f mx my y x s) (next_id s)
           = Some \<lparr>item_x = px, item_y = py, item_text = t, item_fill = c\<rparr>"
  using assms
  by (auto simp: visitCell_def Let_def create_text_def itemconfig_def split: if_splits option.splits)

lemma visitCell_charMap_keeps:
  "charMap s p = Some h \<Longrightarrow> charMap (visitCell f mx my y x s) p = Some h"
  by (auto simp: visitCell_def Let_def create_text_def itemconfig_def split: option.splits)

lemma visitCells_created:
  assumes "consistent s" and "distinct ps"
    and "calls (visitCells f mx my ps s) = calls s @ cs"
    and "CreateText p px py t c \<in> set cs"
  shows "charMap s p = None
       \<and> (\<exists>h. charMap (visitCells f mx my ps s) p = Some h
              \<and> items (visitCells f mx my ps s) h
                  = Some \<lparr>item_x = px, item_y = py, item_text = t, item_fill = c\<rparr>)"
  using assms
proof (induction ps arbitrary: s cs)
  case Nil
  then show ?case by (simp add: visitCells_Nil)
next
  case (Cons q ps)
  let ?s1 = "visitCell f mx my (snd q) (fst q) s"
  obtain c1 where c1: "calls ?s1 = calls s @ c1"
      "\<forall>c \<in> set c1. call_pos c = Some (fst q, snd q) \<and> tick_call f mx my c"
    using visitCell_calls[of f mx my "snd q" "fst q" s] by blast
  obtain c2 where c2: "calls (visitCells f mx my ps ?s1) = calls ?s1 @ c2"
    using visitCells_calls[of f mx my ps ?s1] by blast
  have cs: "cs = c1 @ c2" using Cons.prems(3) c1(1) c2 by (simp add: visitCells_Cons)
  have con1: "consistent ?s1" by (rule visitCell_consistent[OF Cons.prems(1)])
  have dist: "distinct ps" "q \<notin> set ps" using Cons.prems(2) by simp_all
  consider "CreateText p px py t c \<in> set c1" | "CreateText p px py t c \<in> set c2"
    using Cons.prems(4) cs by auto
  then show ?case
  proof cases
    case 1
    from visitCell_created[OF c1(1) 1]
    have p: "p = (fst q, snd q)" and none: "charMap s p = None"
      and cm: "charMap ?s1 p = Some (next_id s)"
      and it: "items ?s1 (next_id s) = Some \<lparr>item_x = px, item_y = py, item_text = t, item_fill = c\<rparr>"
      by blast+
    have notin: "p \<notin> set ps \<or> gray f (snd p) (fst p) < 10" using dist(2) p by simp
    have "charMap (visitCells f mx my ps ?s1) p = Some (next_id s)"
      using visitCells_charMap_other[OF notin] cm by simp
    moreover have "items (visitCells f mx my ps ?s1) (next_id s)
        = Some \<lparr>item_x = px, item_y = py, item_text = t, item_fill = c\<rparr>"
      using visitCells_items_other[OF con1 notin cm] it by simp
    ultimately show ?thesis using none by (simp add: visitCells_Cons)
  next
    case 2
    from Cons.IH[OF con1 dist(1) c2 2]
    have none1: "charMap ?s1 p = None"
      and fin: "\<exists>h. charMap (visitCells f mx my ps ?s1) p = Some h
              \<and> items (visitCells f mx my ps ?s1) h
                  = Some \<lparr>item_x = px, item_y = py, item_text = t, item_fill = c\<rparr>"
      by blast+
    have "charMap s p = None"
    proof (cases "charMap s p")
      case None
      then show ?thesis .
    next
      case (Some h)
      then have "charMap ?s1 p = Some h" by (rule visitCell_charMap_keeps)
      then show ?thesis using none1 by simp
    qed
    then show ?thesis using fin by (simp add: visitCells_Cons)
  qed
qed

text \<open>Evaluating a tick on a concrete frame.\<close>

lemmas tick_eval = updateCanvas_def renderCells_def visitCell_def cellGlyph_def Let_def
  create_text_def itemconfig_def margin_def cellWidth_def cellHeight_def init_state_def
  compressColor_def quantize_def fmt02x_def hexdigit_def hex.simps glyphIndex_closed ASCII_CHARS_def
  new_calls_def calls_at_def

lemma tick_call_dark:
  assumes "tick_call f mx my c" and "call_pos c = Some (x, y)"
  shows "\<not> gray f y x < 10"
  using assms by (cases c) (auto simp: tick_call_def)

lemma tick_call_glyph:
  assumes "tick_call f mx my c" and "call_pos c = Some (x, y)"
  shows "call_glyph c = Some (cellGlyph f y x)"
  using assms by (cases c) (auto simp: tick_call_def)

lemma in_calls_at: "c \<in> set (calls_at q cs) \<longleftrightarrow> c \<in> set cs \<and> call_pos c = Some q"
  by (auto simp: calls_at_def)

section \<open>DiffRenderer: the claims\<close>

text \<open>
  Claim C2. In a tick from any state the renderer can be in, a cell \<open>(x, y)\<close> whose brightness
  is below 10 in the current frame is omitted: no canvas call is made for it, its entries in
  \<open>lastFrame\<close> and \<open>charMap\<close> are what they were, and the canvas item of its handle, if it has
  one, is unchanged, so a glyph drawn earlier stays on screen.
\<close>

theorem dark_cell_untouched:
  assumes "reachable s" and "P raw = Inr f" and "updateCanvas P (Some raw) W H s = Inr s'"
    and "gray f y x < 10"
  shows "calls_at (x, y) (new_calls s s') = []
       \<and> lastFrame s' (x, y) = lastFrame s (x, y)
       \<and> charMap s' (x, y) = charMap s (x, y)
       \<and> (\<forall>h. charMap s (x, y) = Some h \<longrightarrow> items s' h = items s h)"
proof -
  let ?mx = "margin W (cols f) cellWidth" and ?my = "margin H (rows f) cellHeight"
  note s' = updateCanvas_frame[OF assms(2,3)]
  have dark: "(x, y) \<notin> set (cell_order f) \<or> gray f (snd (x, y)) (fst (x, y)) < 10"
    using assms(4) by simp
  obtain cs where cs: "new_calls s s' = cs @ [After 1]" "\<forall>c \<in> set cs. tick_call f ?mx ?my c"
    using tick_calls[OF assms(2,3)] by blast
  have "calls_at (x, y) cs = []"
  proof (rule ccontr)
    assume "calls_at (x, y) cs \<noteq> []"
    then obtain c where "c \<in> set (calls_at (x, y) cs)" by (cases "calls_at (x, y) cs") auto
    then have "c \<in> set cs" "call_pos c = Some (x, y)" by (simp_all add: in_calls_at)
    then show False using cs(2) tick_call_dark[of f ?mx ?my c x y] assms(4) by blast
  qed
  then have 1: "calls_at (x, y) (new_calls s s') = []" by (simp add: cs(1) calls_at_After)
  have 2: "lastFrame s' (x, y) = lastFrame s (x, y)"
    unfolding s' renderCells_visitCells using assms(4) by (simp add: visitCells_lastFrame)
  have 3: "charMap s' (x, y) = charMap s (x, y)"
    unfolding s' renderCells_visitCells using visitCells_charMap_other[OF dark] by simp
  have 4: "items s' h = items s h" if "charMap s (x, y) = Some h" for h
    unfolding s' renderCells_visitCells
    using visitCells_items_other[OF reachable_consistent[OF assms(1)] dark that] by simp
  show ?thesis using 1 2 3 4 by blast
qed

text \<open>
  Claim C3. In every tick each position receives at most one canvas call (a creation or an
  update), and that call draws the glyph and colour the frame maps the position to. If the next
  tick's frame has the same glyph mapping, that tick makes no canvas call at all: it only
  reschedules, and \<open>lastFrame\<close>, \<open>charMap\<close> and the canvas items are unchanged.
\<close>

theorem repeated_frame_draws_nothing:
  assumes "P1 raw1 = Inr f1" and "updateCanvas P1 (Some raw1) W1 H1 s = Inr s1"
    and "P2 raw2 = Inr f2" and "updateCanvas P2 (Some raw2) W2 H2 s1 = Inr s2"
    and "glyphMapping f2 = glyphMapping f1"
  shows "(\<forall>p. length (calls_at p (new_calls s s1)) \<le> 1)
       \<and> (\<forall>p. \<forall>c \<in> set (calls_at p (new_calls s s1)). call_glyph c = glyphMapping f1 p)
       \<and> new_calls s1 s2 = [After 1]
       \<and> lastFrame s2 = lastFrame s1 \<and> charMap s2 = charMap s1
       \<and> items s2 = items s1 \<and> next_id s2 = next_id s1"
proof -
  let ?mx = "margin W1 (cols f1) cellWidth" and ?my = "margin H1 (rows f1) cellHeight"
  note s1 = updateCanvas_frame[OF assms(1,2)]
  note s2 = updateCanvas_frame[OF assms(3,4)]
  obtain cs where cs: "new_calls s s1 = cs @ [After 1]" "\<forall>q. length (calls_at q cs) \<le> 1"
      "\<forall>c \<in> set cs. tick_call f1 ?mx ?my c"
    using tick_calls[OF assms(1,2)] by blast
  have cs_sub: "calls (renderCells f1 W1 H1 s) = calls s @ cs"
    using cs(1) visitCells_calls[of f1 ?mx ?my "cell_order f1" s]
    unfolding s1 renderCells_visitCells by (auto simp: new_calls_def)
  have 1: "\<forall>p. length (calls_at p (new_calls s s1)) \<le> 1"
    using cs(2) by (simp add: cs(1) calls_at_After)
  have 2: "\<forall>p. \<forall>c \<in> set (calls_at p (new_calls s s1)). call_glyph c = glyphMapping f1 p"
  proof (intro allI ballI)
    fix p c assume "c \<in> set (calls_at p (new_calls s s1))"
    then have c: "c \<in> set cs" "call_pos c = Some p" by (simp_all add: cs(1) calls_at_After in_calls_at)
    obtain x y where p: "p = (x, y)" by (cases p)
    have tc: "tick_call f1 ?mx ?my c" using cs(3) c(1) by blast
    have vis: "\<not> gray f1 y x < 10" using tick_call_dark[OF tc] c(2) p by simp
    have g: "call_glyph c = Some (cellGlyph f1 y x)" using tick_call_glyph[OF tc] c(2) p by simp
    have "p \<in> set (cell_order f1)"
    proof (rule ccontr)
      assume "p \<notin> set (cell_order f1)"
      then have "count_list (cell_order f1) p = 0" by simp
      moreover obtain cs' where cs': "calls (visitCells f1 ?mx ?my (cell_order f1) s) = calls s @ cs'"
          "\<forall>q. length (calls_at q cs') \<le> count_list (cell_order f1) q"
        using visitCells_calls[of f1 ?mx ?my "cell_order f1" s] by blast
      ultimately have "calls_at p cs' = []" by (metis le_zero_eq length_0_conv)
      moreover have "cs' = cs" using cs'(1) cs_sub by (simp add: renderCells_visitCells)
      ultimately show False using c by (auto simp: calls_at_def filter_empty_conv)
    qed
    then have "x < cols f1 \<and> y < rows f1" by (simp add: set_cell_order p)
    then show "call_glyph c = glyphMapping f1 p" using vis g by (simp add: glyphMapping_def p)
  qed
  have known: "\<forall>q \<in> set (cell_order f2). \<not> gray f2 (snd q) (fst q) < 10
      \<longrightarrow> lastFrame (renderCells f1 W1 H1 s) q = Some (cellGlyph f2 (snd q) (fst q))"
  proof (intro ballI impI)
    fix q assume q: "q \<in> set (cell_order f2)" and vis: "\<not> gray f2 (snd q) (fst q) < 10"
    obtain x y where p: "q = (x, y)" by (cases q)
    have "glyphMapping f2 q = Some (cellGlyph f2 y x)"
      using q vis by (simp add: glyphMapping_def p set_cell_order)
    then have m1: "glyphMapping f1 q = Some (cellGlyph f2 y x)" by (simp only: assms(5))
    then have "x < cols f1 \<and> y < rows f1 \<and> \<not> gray f1 y x < 10 \<and> cellGlyph f1 y x = cellGlyph f2 y x"
      by (simp add: glyphMapping_def p split: if_splits)
    then show "lastFrame (renderCells f1 W1 H1 s) q = Some (cellGlyph f2 (snd q) (fst q))"
      by (simp add: renderCells_visitCells visitCells_lastFrame set_cell_order p)
  qed
  have same: "renderCells f2 W2 H2 s1 = s1"
  proof -
    have "\<forall>q \<in> set (cell_order f2). \<not> gray f2 (snd q) (fst q) < 10
        \<longrightarrow> lastFrame s1 q = Some (cellGlyph f2 (snd q) (fst q))"
      using known by (simp add: s1)
    then show ?thesis unfolding renderCells_visitCells by (rule visitCells_noop)
  qed
  have 3: "new_calls s1 s2 = [After 1] \<and> lastFrame s2 = lastFrame s1 \<and> charMap s2 = charMap s1
       \<and> items s2 = items s1 \<and> next_id s2 = next_id s1"
    unfolding s2 same by (simp add: new_calls_def)
  show ?thesis using 1 2 3 by blast
qed

lemma margin_centres:
  assumes "int n * cell \<le> avail"
  shows "centres avail (int n * cell) (margin avail n cell)"
  using assms unfolding centres_def margin_def by (simp add: max_def)

lemma margin_zero:
  assumes "avail \<le> int n * cell"
  shows "margin avail n cell = 0"
  using assms unfolding margin_def by (simp add: max_def)

text \<open>
  Claim C8, as amended. Every handle created in a tick for a position \<open>(x, y)\<close>, which had no
  handle before, is placed at \<open>(marginX + x * cellWidth, marginY + y * cellHeight)\<close>, and the item
  recorded for the position is there when the tick ends. The margin along an axis is
  \<open>max 0 ((canvas - cells * cell) div 2)\<close>: it centres the grid (to the pixel of integer halving)
  when the canvas is at least as large as the grid along that axis, and is 0 when the canvas is
  smaller.
\<close>

theorem created_handle_position:
  assumes "reachable s" and "P raw = Inr f" and "updateCanvas P (Some raw) W H s = Inr s'"
    and "CreateText (x, y) px py t c \<in> set (new_calls s s')"
  shows "px = margin W (cols f) cellWidth + int x * cellWidth
       \<and> py = margin H (rows f) cellHeight + int y * cellHeight
       \<and> charMap s (x, y) = None
       \<and> (\<exists>h. charMap s' (x, y) = Some h
              \<and> items s' h = Some \<lparr>item_x = px, item_y = py, item_text = t, item_fill = c\<rparr>)
       \<and> margin W (cols f) cellWidth = max 0 ((W - int (cols f) * cellWidth) div 2)
       \<and> margin H (rows f) cellHeight = max 0 ((H - int (rows f) * cellHeight) div 2)
       \<and> (int (cols f) * cellWidth \<le> W
            \<longrightarrow> centres W (int (cols f) * cellWidth) (margin W (cols f) cellWidth))
       \<and> (int (rows f) * cellHeight \<le> H
            \<longrightarrow> centres H (int (rows f) * cellHeight) (margin H (rows f) cellHeight))
       \<and> (W \<le> int (cols f) * cellWidth \<longrightarrow> margin W (cols f) cellWidth = 0)
       \<and> (H \<le> int (rows f) * cellHeight \<longrightarrow> margin H (rows f) cellHeight = 0)"
proof -
  let ?mx = "margin W (cols f) cellWidth" and ?my = "margin H (rows f) cellHeight"
  let ?r = "visitCells f ?mx ?my (cell_order f) s"
  note s' = updateCanvas_frame[OF assms(2,3), unfolded renderCells_visitCells]
  obtain cs where cs: "calls ?r = calls s @ cs" "\<forall>c \<in> set cs. tick_call f ?mx ?my c"
    using visitCells_calls[of f ?mx ?my "cell_order f" s] by blast
  have nc: "new_calls s s' = cs @ [After 1]" unfolding s' by (simp add: new_calls_def cs(1))
  have mem: "CreateText (x, y) px py t c \<in> set cs" using assms(4) by (simp add: nc)
  then have "tick_call f ?mx ?my (CreateText (x, y) px py t c)" using cs(2) by blast
  then have 1: "px = ?mx + int x * cellWidth \<and> py = ?my + int y * cellHeight"
    by (simp add: tick_call_def)
  from visitCells_created[OF reachable_consistent[OF assms(1)] distinct_cell_order cs(1) mem]
  have 2: "charMap s (x, y) = None
       \<and> (\<exists>h. charMap s' (x, y) = Some h
              \<and> items s' h = Some \<lparr>item_x = px, item_y = py, item_text = t, item_fill = c\<rparr>)"
    unfolding s' by simp
  show ?thesis
    using 1 2 margin_centres[of "cols f" cellWidth W] margin_centres[of "rows f" cellHeight H]
      margin_zero[of W "cols f" cellWidth] margin_zero[of H "rows f" cellHeight]
    by (simp add: margin_def)
qed

text \<open>
  Claim C9. A tick that finds no frame returns normally having made the single call
  \<^verbatim>\<open>root.after(1, updateCanvas)\<close>: no creation, no update, and \<open>lastFrame\<close>, \<open>charMap\<close> and the
  canvas items are unchanged.
\<close>

theorem no_frame_reschedules:
  "(case updateCanvas P None W H s of
      Inl e \<Rightarrow> False
    | Inr s' \<Rightarrow> new_calls s s' = [After 1] \<and> lastFrame s' = lastFrame s \<and> charMap s' = charMap s
               \<and> items s' = items s \<and> next_id s' = next_id s)"
  by (simp add: updateCanvas_def new_calls_def)

text \<open>
  Claim C10. After every tick the domain of \<open>lastFrame\<close> is the domain of \<open>charMap\<close>; a position
  has a recorded glyph and colour exactly when one handle has been created for it (never more
  than one), that handle names an item of the canvas and belongs to no other position; and the
  two domains agree after every cell visit of a pass, so both entries are installed in the same
  visit.
\<close>

theorem tables_same_domain:
  assumes "reachable s"
  shows "dom (lastFrame s) = dom (charMap s)
       \<and> (\<forall>p. (p \<in> dom (lastFrame s)) = (length (creates_at p (calls s)) = 1))
       \<and> (\<forall>p. length (creates_at p (calls s)) \<le> 1)
       \<and> (\<forall>p h. charMap s p = Some h \<longrightarrow> items s h \<noteq> None)
       \<and> (\<forall>p q h. charMap s p = Some h \<and> charMap s q = Some h \<longrightarrow> p = q)
       \<and> (\<forall>f mx my ps. dom (lastFrame (visitCells f mx my ps s)) = dom (charMap (visitCells f mx my ps s)))"
proof -
  note c = reachable_consistent[OF assms]
  note d = consistentD[OF c]
  have 1: "dom (lastFrame s) = dom (charMap s)" by (rule d(1))
  have 2: "\<forall>p. (p \<in> dom (lastFrame s)) = (length (creates_at p (calls s)) = 1)"
    using d(5) by (auto simp: 1)
  have 3: "\<forall>p. length (creates_at p (calls s)) \<le> 1" using d(5) by simp
  have 4: "\<forall>p h. charMap s p = Some h \<longrightarrow> items s h \<noteq> None" using d(4) by blast
  have 5: "\<forall>p q h. charMap s p = Some h \<and> charMap s q = Some h \<longrightarrow> p = q" using d(2) by blast
  have 6: "\<forall>f mx my ps. dom (lastFrame (visitCells f mx my ps s)) = dom (charMap (visitCells f mx my ps s))"
    using consistentD(1)[OF visitCells_consistent[OF c]] by blast
  show ?thesis using 1 2 3 4 5 6 by blast
qed

section \<open>The scenario, evaluated\<close>

lemmas scenario_eval = tick_eval cell_frame_def camera_frame_def drawn_state_def

lemma first_tick:
  "updateCanvas (\<lambda>raw. Inr (cell_frame 50 (10, 130, 250))) (Some camera_frame) 900 600 init_state
   = Inr drawn_state"
  by (simp add: scenario_eval)

lemma reachable_drawn: "reachable drawn_state"
  by (rule reachable_tick[OF reachable_init first_tick])

text \<open>
  Witness for C2: the cell drawn at brightness 50 drops to brightness 5 in the next frame; the
  tick makes no call for it and the item still shows the glyph drawn before.
\<close>

theorem dark_cell_untouched_witness:
  "reachable drawn_state
   \<and> updateCanvas (\<lambda>raw. Inr (cell_frame 5 (1, 2, 3))) (Some camera_frame) 900 600 drawn_state
       = Inr (drawn_state\<lparr>calls := calls drawn_state @ [After 1]\<rparr>)
   \<and> gray (cell_frame 5 (1, 2, 3)) 0 0 < 10
   \<and> calls_at (0, 0) (new_calls drawn_state (drawn_state\<lparr>calls := calls drawn_state @ [After 1]\<rparr>)) = []
   \<and> lastFrame (drawn_state\<lparr>calls := calls drawn_state @ [After 1]\<rparr>) (0, 0) = Some (CHR ''%'', ''#c08000'')
   \<and> charMap (drawn_state\<lparr>calls := calls drawn_state @ [After 1]\<rparr>) (0, 0) = Some 1
   \<and> items (drawn_state\<lparr>calls := calls drawn_state @ [After 1]\<rparr>) 1
       = Some \<lparr>item_x = 447, item_y = 295, item_text = CHR ''%'', item_fill = ''#c08000''\<rparr>"
proof -
  have t: "updateCanvas (\<lambda>raw. Inr (cell_frame 5 (1, 2, 3))) (Some camera_frame) 900 600 drawn_state
       = Inr (drawn_state\<lparr>calls := calls drawn_state @ [After 1]\<rparr>)"
    by (simp add: scenario_eval)
  have d: "gray (cell_frame 5 (1, 2, 3)) 0 0 < 10" by (simp add: cell_frame_def)
  from dark_cell_untouched[OF reachable_drawn refl t d]
  show ?thesis using reachable_drawn t d by (simp add: drawn_state_def)
qed

text \<open>
  Witness for C3: a second frame with other pixel values (brightness 51, a slightly different
  colour) but the same glyph mapping draws nothing.
\<close>

theorem repeated_frame_draws_nothing_witness:
  "updateCanvas (\<lambda>raw. Inr (cell_frame 50 (10, 130, 250))) (Some camera_frame) 900 600 init_state
     = Inr drawn_state
   \<and> updateCanvas (\<lambda>raw. Inr (cell_frame 51 (12, 135, 251))) (Some camera_frame) 900 600 drawn_state
     = Inr (drawn_state\<lparr>calls := calls drawn_state @ [After 1]\<rparr>)
   \<and> glyphMapping (cell_frame 51 (12, 135, 251)) = glyphMapping (cell_frame 50 (10, 130, 250))
   \<and> length (calls_at (0, 0) (new_calls init_state drawn_state)) \<le> 1
   \<and> new_calls drawn_state (drawn_state\<lparr>calls := calls drawn_state @ [After 1]\<rparr>) = [After 1]"
proof -
  have t2: "updateCanvas (\<lambda>raw. Inr (cell_frame 51 (12, 135, 251))) (Some camera_frame) 900 600 drawn_state
     = Inr (drawn_state\<lparr>calls := calls drawn_state @ [After 1]\<rparr>)"
    by (simp add: scenario_eval)
  have g: "glyphMapping (cell_frame 51 (12, 135, 251)) = glyphMapping (cell_frame 50 (10, 130, 250))"
    by (rule ext) (simp add: glyphMapping_def scenario_eval split: prod.splits)
  from repeated_frame_draws_nothing[OF refl first_tick refl t2 g]
  show ?thesis using first_tick t2 g by simp
qed

text \<open>Witness for C8 as amended: one cell on a 900 by 600 canvas is created at (447, 295).\<close>

theorem created_handle_position_witness:
  "reachable init_state
   \<and> updateCanvas (\<lambda>raw. Inr (cell_frame 50 (10, 130, 250))) (Some camera_frame) 900 600 init_state
     = Inr drawn_state
   \<and> CreateText (0, 0) 447 295 CHR ''%'' ''#c08000'' \<in> set (new_calls init_state drawn_state)
   \<and> (447::int) = margin 900 (cols (cell_frame 50 (10, 130, 250))) cellWidth + int 0 * cellWidth
   \<and> (295::int) = margin 600 (rows (cell_frame 50 (10, 130, 250))) cellHeight + int 0 * cellHeight
   \<and> charMap init_state (0, 0) = None
   \<and> charMap drawn_state (0, 0) = Some 1
   \<and> items drawn_state 1
       = Some \<lparr>item_x = 447, item_y = 295, item_text = CHR ''%'', item_fill = ''#c08000''\<rparr>
   \<and> centres 900 (int (cols (cell_frame 50 (10, 130, 250))) * cellWidth) 447
   \<and> centres 600 (int (rows (cell_frame 50 (10, 130, 250))) * cellHeight) 295"
proof -
  have c: "CreateText (0, 0) 447 295 CHR ''%'' ''#c08000'' \<in> set (new_calls init_state drawn_state)"
    by (simp add: new_calls_def init_state_def drawn_state_def)
  from created_handle_position[OF reachable_init refl first_tick c]
  show ?thesis using first_tick c reachable_init
    by (simp add: cell_frame_def cellWidth_def cellHeight_def margin_def drawn_state_def)
qed

text \<open>
  Counterexample to C8 as stated: on a canvas of 1 by 1 pixel (what Tk reports before the
  window is mapped) the 5 by 9 grid of one cell is created at margin 0, which does not centre
  it: the guard \<^verbatim>\<open>max(0, ...)\<close> stops the margin from going negative.
\<close>

theorem unmapped_canvas_not_centred:
  "updateCanvas (\<lambda>raw. Inr (cell_frame 50 (10, 130, 250))) (Some camera_frame) 1 1 init_state
     = Inr \<lparr>lastFrame = [(0, 0) \<mapsto> (CHR ''%'', ''#c08000'')],
            charMap = [(0, 0) \<mapsto> 1],
            items = [1 \<mapsto> \<lparr>item_x = 0, item_y = 0, item_text = CHR ''%'', item_fill = ''#c08000''\<rparr>],
            next_id = 2,
            calls = [CreateText (0, 0) 0 0 CHR ''%'' ''#c08000'', After 1]\<rparr>
   \<and> \<not> centres 1 (int (cols (cell_frame 50 (10, 130, 250))) * cellWidth) 0
   \<and> \<not> centres 1 (int (rows (cell_frame 50 (10, 130, 250))) * cellHeight) 0"
  by (simp add: scenario_eval centres_def)

text \<open>Witness for C10: the state after the first tick of the scenario.\<close>

theorem tables_same_domain_witness:
  "reachable drawn_state
   \<and> dom (lastFrame drawn_state) = dom (charMap drawn_state)
   \<and> (0, 0) \<in> dom (lastFrame drawn_state)
   \<and> length (creates_at (0, 0) (calls drawn_state)) = 1
   \<and> items drawn_state 1 \<noteq> None"
proof -
  from tables_same_domain[OF reachable_drawn]
  have "dom (lastFrame drawn_state) = dom (charMap drawn_state)"
    and "((0, 0) \<in> dom (lastFrame drawn_state)) = (length (creates_at (0, 0) (calls drawn_state)) = 1)"
    and "charMap drawn_state (0, 0) = Some 1 \<longrightarrow> items drawn_state 1 \<noteq> None"
    by blast+
  then show ?thesis using reachable_drawn by (simp add: drawn_state_def)
qed

end
